theory Spec2Isabelle
  imports Complex_Main
begin

section \<open>Text: code points, character classes, tokenizer\<close>

text \<open>
  A Python \<open>str\<close> is a sequence of code points. The model uses \<^typ>\<open>string\<close> and reads
  every \<^typ>\<open>char\<close> as the code point of the same number (0 to 255), so \<open>length\<close>
  counts what Python's \<open>len\<close> counts. The character classes below are those of Python 3
  on that range: \<open>str.isspace\<close> (which both \<open>\s\<close> and \<open>str.split()\<close> use),
  \<open>str.isalnum\<close>, the class \<open>\w\<close> (alphanumeric or underscore) and \<open>str.lower\<close>.
\<close>

definition is_space :: "char \<Rightarrow> bool" where
  "is_space c =
     (let n = (of_char c :: nat)
      in (9 \<le> n \<and> n \<le> 13) \<or> (28 \<le> n \<and> n \<le> 32) \<or> n = 133 \<or> n = 160)"

definition is_alnum :: "char \<Rightarrow> bool" where
  "is_alnum c =
     (let n = (of_char c :: nat)
      in (48 \<le> n \<and> n \<le> 57) \<or> (65 \<le> n \<and> n \<le> 90) \<or> (97 \<le> n \<and> n \<le> 122)
         \<or> n = 170 \<or> n = 178 \<or> n = 179 \<or> n = 181 \<or> n = 185 \<or> n = 186
         \<or> (188 \<le> n \<and> n \<le> 190) \<or> (192 \<le> n \<and> n \<le> 214)
         \<or> (216 \<le> n \<and> n \<le> 246) \<or> 248 \<le> n)"

definition is_word :: "char \<Rightarrow> bool" where
  "is_word c = (is_alnum c \<or> c = CHR ''_'')"

definition lower_char :: "char \<Rightarrow> char" where
  "lower_char c =
     (let n = (of_char c :: nat)
      in if (65 \<le> n \<and> n \<le> 90) \<or> (192 \<le> n \<and> n \<le> 222 \<and> n \<noteq> 215)
         then char_of (n + 32) else c)"

definition lower :: "string \<Rightarrow> string" where
  "lower text = map lower_char text"

text \<open>\<open>re.sub(r'[^\w\s]', ' ', text)\<close>: a character that is neither \<open>\w\<close> nor \<open>\s\<close>
  becomes a space.\<close>

definition sub_nonword :: "string \<Rightarrow> string" where
  "sub_nonword text = map (\<lambda>c. if \<not> is_word c \<and> \<not> is_space c then CHR '' '' else c) text"

text \<open>\<open>str.split()\<close> without arguments: one scan, the token under construction in
  \<open>cur\<close>; a whitespace character closes a non-empty token and is otherwise skipped.\<close>

fun split_scan :: "string \<Rightarrow> string \<Rightarrow> string list" where
  "split_scan cur [] = (if cur = [] then [] else [cur])"
| "split_scan cur (c # cs) =
     (if is_space c then (if cur = [] then split_scan [] cs else cur # split_scan [] cs)
      else split_scan (cur @ [c]) cs)"

definition split_ws :: "string \<Rightarrow> string list" where
  "split_ws text = split_scan [] text"

definition tokenize :: "string \<Rightarrow> string list" where
  "tokenize text =
     (let text1 = lower text;
          text2 = sub_nonword text1;
          tokens = split_ws text2
      in filter (\<lambda>t. length t > 2) tokens)"

section \<open>Documents and the inverted index\<close>

text \<open>
  A document is the dictionary the crawlers produce; the index reads the keys \<open>title\<close>,
  \<open>body\<close>, \<open>url\<close>, \<open>date\<close> and \<open>language\<close>. A posting is the pair
  \<open>(doc_id, tf)\<close>. The dictionary \<open>self.index\<close> is an association list in insertion
  order (Python dictionaries keep it), so that all posting lists can be enumerated.
  Python's \<open>/\<close> on two ints is modelled as division of reals.
\<close>

record document =
  title :: string
  body :: string
  url :: string
  date :: string
  language :: string

record doc_meta =
  meta_title :: string
  meta_url :: string
  meta_date :: string
  meta_language :: string

type_synonym posting = "nat \<times> nat"

record inverted_index =
  index :: "(string \<times> posting list) list"
  doc_lengths :: "nat \<rightharpoonup> nat"
  doc_metadata :: "nat \<rightharpoonup> doc_meta"
  vocabulary :: "string set"
  total_docs :: nat
  avg_doc_length :: real

text \<open>\<open>InvertedIndex.__init__\<close>\<close>

definition InvertedIndex_init :: inverted_index where
  "InvertedIndex_init =
     \<lparr>index = [], doc_lengths = Map.empty, doc_metadata = Map.empty,
      vocabulary = {}, total_docs = 0, avg_doc_length = 0\<rparr>"

text \<open>\<open>Counter(tokens)\<close>: for each element in turn, \<open>c[elem] = c.get(elem, 0) + 1\<close>;
  a new key goes to the end of the dictionary.\<close>

fun counter_add :: "string \<Rightarrow> (string \<times> nat) list \<Rightarrow> (string \<times> nat) list" where
  "counter_add t [] = [(t, 1)]"
| "counter_add t ((k, c) # rest) =
     (if k = t then (k, c + 1) # rest else (k, c) # counter_add t rest)"

definition Counter :: "string list \<Rightarrow> (string \<times> nat) list" where
  "Counter tokens = foldl (\<lambda>cs t. counter_add t cs) [] tokens"

text \<open>\<open>self.index[term].append(p)\<close> on the \<open>defaultdict(list)\<close>: an unknown term gets
  a fresh list first.\<close>

fun append_posting ::
  "string \<Rightarrow> posting \<Rightarrow> (string \<times> posting list) list \<Rightarrow> (string \<times> posting list) list" where
  "append_posting term p [] = [(term, [p])]"
| "append_posting term p ((k, ps) # rest) =
     (if k = term then (k, ps @ [p]) # rest else (k, ps) # append_posting term p rest)"

text \<open>The inner loop of \<open>build_index\<close> over \<open>term_freq.items()\<close>.\<close>

fun add_postings :: "nat \<Rightarrow> (string \<times> nat) list \<Rightarrow> inverted_index \<Rightarrow> inverted_index" where
  "add_postings doc_id [] self = self"
| "add_postings doc_id ((term, tf) # rest) self =
     add_postings doc_id rest
       (self\<lparr>vocabulary := insert term (vocabulary self),
              index := append_posting term (doc_id, tf) (index self)\<rparr>)"

text \<open>One pass of the outer loop; the state is the index and \<open>total_length\<close>.\<close>

definition index_document ::
  "nat \<Rightarrow> document \<Rightarrow> inverted_index \<times> nat \<Rightarrow> inverted_index \<times> nat" where
  "index_document doc_id doc st =
     (let self = fst st; total_length = snd st;
          self1 = self\<lparr>doc_metadata := (doc_metadata self)(doc_id \<mapsto>
                     \<lparr>meta_title = title doc, meta_url = url doc,
                      meta_date = date doc, meta_language = language doc\<rparr>)\<rparr>;
          text = title doc @ '' '' @ body doc;
          tokens = tokenize text;
          term_freq = Counter tokens;
          self2 = self1\<lparr>doc_lengths := (doc_lengths self1)(doc_id \<mapsto> length tokens)\<rparr>
      in (add_postings doc_id term_freq self2, total_length + length tokens))"

text \<open>\<open>for doc_id, doc in enumerate(documents)\<close>\<close>

fun index_documents ::
  "nat \<Rightarrow> document list \<Rightarrow> inverted_index \<times> nat \<Rightarrow> inverted_index \<times> nat" where
  "index_documents doc_id [] st = st"
| "index_documents doc_id (doc # docs) st =
     index_documents (Suc doc_id) docs (index_document doc_id doc st)"

definition build_index :: "inverted_index \<Rightarrow> document list \<Rightarrow> inverted_index" where
  "build_index self documents =
     (let self1 = self\<lparr>total_docs := length documents\<rparr>;
          st = index_documents 0 documents (self1, 0);
          self2 = fst st; total_length = snd st
      in self2\<lparr>avg_doc_length :=
            (if total_docs self2 > 0 then real total_length / real (total_docs self2) else 0)\<rparr>)"

definition get_postings :: "inverted_index \<Rightarrow> string \<Rightarrow> posting list" where
  "get_postings self term = (case map_of (index self) term of None \<Rightarrow> [] | Some ps \<Rightarrow> ps)"

definition get_doc_freq :: "inverted_index \<Rightarrow> string \<Rightarrow> nat" where
  "get_doc_freq self term =
     length (case map_of (index self) term of None \<Rightarrow> [] | Some ps \<Rightarrow> ps)"

section \<open>Retrieval models\<close>

text \<open>
  Scores are Python floats; the model computes with real numbers, \<open>math.log\<close> is
  \<^const>\<open>ln\<close>. The arguments of \<open>math.log\<close> are \<open>(N + 1) / (df + 1)\<close> and
  \<open>(N + 1) / (df + 0.5)\<close> after simplification, positive for all natural \<open>N\<close> and
  \<open>df\<close>, so the logarithm never raises. A division by zero raises
  \<open>ZeroDivisionError\<close>; a missing dictionary key raises \<open>KeyError\<close>.
\<close>

datatype error = KeyError | ZeroDivisionError

text \<open>The scan of a posting list for the document: the first posting of \<open>doc_id\<close> gives
  \<open>tf\<close>, which stays 0 when there is none.\<close>

fun find_tf :: "posting list \<Rightarrow> nat \<Rightarrow> nat" where
  "find_tf [] doc_id = 0"
| "find_tf ((pid, ptf) # ps) doc_id = (if pid = doc_id then ptf else find_tf ps doc_id)"

definition tfidf_idf :: "nat \<Rightarrow> nat \<Rightarrow> real" where
  "tfidf_idf N df = ln ((real N + 1) / (real df + 1)) + 1"

definition tfidf_term :: "real \<Rightarrow> nat \<Rightarrow> real" where
  "tfidf_term idf tf = (let tf_normalized = ln (1 + real tf) in tf_normalized * idf)"

fun tfidf_loop :: "inverted_index \<Rightarrow> nat \<Rightarrow> string list \<Rightarrow> real \<Rightarrow> real" where
  "tfidf_loop self doc_id [] score = score"
| "tfidf_loop self doc_id (term # terms) score =
     (let postings = get_postings self term; df = length postings
      in if df = 0 then tfidf_loop self doc_id terms score
         else let idf = tfidf_idf (total_docs self) df;
                  tf = find_tf postings doc_id
              in if tf > 0 then tfidf_loop self doc_id terms (score + tfidf_term idf tf)
                 else tfidf_loop self doc_id terms score)"

definition tfidf_score_document :: "inverted_index \<Rightarrow> string list \<Rightarrow> nat \<Rightarrow> real" where
  "tfidf_score_document self query_terms doc_id = tfidf_loop self doc_id query_terms 0"

definition bm25_idf :: "nat \<Rightarrow> nat \<Rightarrow> real" where
  "bm25_idf N df = ln ((real N - real df + 0.5) / (real df + 0.5) + 1)"

definition bm25_term :: "real \<Rightarrow> real \<Rightarrow> real \<Rightarrow> real \<Rightarrow> real \<Rightarrow> nat \<Rightarrow> error + real" where
  "bm25_term k1 b idf doc_len avgdl tf =
     (let numerator = real tf * (k1 + 1)
      in if avgdl = 0 then Inl ZeroDivisionError
         else let denominator = real tf + k1 * (1 - b + b * (doc_len / avgdl))
              in if denominator = 0 then Inl ZeroDivisionError
                 else Inr (idf * (numerator / denominator)))"

fun bm25_loop ::
  "real \<Rightarrow> real \<Rightarrow> inverted_index \<Rightarrow> nat \<Rightarrow> real \<Rightarrow> string list \<Rightarrow> real \<Rightarrow> error + real" where
  "bm25_loop k1 b self doc_id doc_len [] score = Inr score"
| "bm25_loop k1 b self doc_id doc_len (term # terms) score =
     (let postings = get_postings self term; df = length postings
      in if df = 0 then bm25_loop k1 b self doc_id doc_len terms score
         else let idf = bm25_idf (total_docs self) df;
                  tf = find_tf postings doc_id
              in if tf > 0
                 then (case bm25_term k1 b idf doc_len (avg_doc_length self) tf of
                         Inl e \<Rightarrow> Inl e
                       | Inr x \<Rightarrow> bm25_loop k1 b self doc_id doc_len terms (score + x))
                 else bm25_loop k1 b self doc_id doc_len terms score)"

definition bm25_score_document ::
  "real \<Rightarrow> real \<Rightarrow> inverted_index \<Rightarrow> string list \<Rightarrow> nat \<Rightarrow> error + real" where
  "bm25_score_document k1 b self query_terms doc_id =
     (let avgdl = avg_doc_length self;
          doc_len = (case doc_lengths self doc_id of None \<Rightarrow> avgdl | Some l \<Rightarrow> real l)
      in bm25_loop k1 b self doc_id doc_len query_terms 0)"

datatype retrieval_model = TFIDFRetrieval | BM25Retrieval real real

fun score_document ::
  "retrieval_model \<Rightarrow> inverted_index \<Rightarrow> string list \<Rightarrow> nat \<Rightarrow> error + real" where
  "score_document TFIDFRetrieval self query_terms doc_id =
     Inr (tfidf_score_document self query_terms doc_id)"
| "score_document (BM25Retrieval k1 b) self query_terms doc_id =
     bm25_score_document k1 b self query_terms doc_id"

section \<open>The search orchestrator\<close>

text \<open>
  The translator is an optional capability: \<open>None\<close> when \<open>googletrans\<close> is not
  installed, otherwise a function of the query, the source and the target language
  whose result \<open>None\<close> stands for any exception of the call (the \<open>except Exception\<close>
  of \<open>translate_query\<close> catches them all). The readings of the clock
  (\<open>time.time()\<close> twice, \<open>datetime.now().isoformat()\<close>) are inputs of \<open>search\<close>.
\<close>

type_synonym translator = "string \<Rightarrow> string \<Rightarrow> string \<Rightarrow> string option"

record result_entry =
  res_doc_id :: nat
  res_score :: real
  res_title :: string
  res_url :: string

record search_record =
  rec_query :: string
  translated_query :: "string option"
  query_language :: string
  rec_method :: string
  num_results :: nat
  latency_seconds :: real
  timestamp :: string
  results :: "result_entry list"

record clir_system =
  documents :: "document list"
  clir_index :: inverted_index
  retrieval_models :: "string \<rightharpoonup> retrieval_model"
  translator :: "translator option"
  search_history :: "search_record list"

record clock =
  start_time :: real
  end_time :: real
  now_iso :: string

definition translate_query :: "clir_system \<Rightarrow> string \<Rightarrow> string \<Rightarrow> string \<Rightarrow> string" where
  "translate_query self query source_lang target_lang =
     (case translator self of
        None \<Rightarrow> query
      | Some tr \<Rightarrow>
          (case tr query source_lang target_lang of
             Some translated \<Rightarrow> translated
           | None \<Rightarrow> query))"

text \<open>The scoring loop over \<open>range(len(self.documents))\<close>; an exception of the model
  ends it.\<close>

fun score_all ::
  "retrieval_model \<Rightarrow> inverted_index \<Rightarrow> string list \<Rightarrow> nat list \<Rightarrow> error + (nat \<times> real) list" where
  "score_all model idx query_terms [] = Inr []"
| "score_all model idx query_terms (doc_id # rest) =
     (case score_document model idx query_terms doc_id of
        Inl e \<Rightarrow> Inl e
      | Inr score \<Rightarrow>
          (case score_all model idx query_terms rest of
             Inl e \<Rightarrow> Inl e
           | Inr scores \<Rightarrow> Inr (if score > 0 then (doc_id, score) # scores else scores)))"

text \<open>
  \<open>scores.sort(key=lambda x: x[1], reverse=True)\<close>. Python's sort is stable, also with
  \<open>reverse=True\<close>: elements with equal keys keep their order. The result of a stable
  sort does not depend on the algorithm; the model inserts each pair, from the last to
  the first, before the first pair whose score is not larger.
\<close>

fun insert_desc :: "nat \<times> real \<Rightarrow> (nat \<times> real) list \<Rightarrow> (nat \<times> real) list" where
  "insert_desc x [] = [x]"
| "insert_desc x (y # ys) = (if snd y \<le> snd x then x # y # ys else y # insert_desc x ys)"

definition sort_desc :: "(nat \<times> real) list \<Rightarrow> (nat \<times> real) list" where
  "sort_desc xs = foldr insert_desc xs []"

text \<open>The slice \<open>xs[:k]\<close>; a negative \<open>k\<close> counts from the end.\<close>

definition slice_to :: "'a list \<Rightarrow> int \<Rightarrow> 'a list" where
  "slice_to xs k = (if 0 \<le> k then take (nat k) xs else take (length xs - nat (- k)) xs)"

fun result_entries :: "inverted_index \<Rightarrow> (nat \<times> real) list \<Rightarrow> error + result_entry list" where
  "result_entries idx [] = Inr []"
| "result_entries idx ((doc_id, score) # rest) =
     (case doc_metadata idx doc_id of
        None \<Rightarrow> Inl KeyError
      | Some meta \<Rightarrow>
          (case result_entries idx rest of
             Inl e \<Rightarrow> Inl e
           | Inr es \<Rightarrow>
               Inr (\<lparr>res_doc_id = doc_id, res_score = score,
                     res_title = meta_title meta, res_url = meta_url meta\<rparr> # es)))"

fun with_metadata ::
  "inverted_index \<Rightarrow> (nat \<times> real) list \<Rightarrow> error + (nat \<times> real \<times> doc_meta) list" where
  "with_metadata idx [] = Inr []"
| "with_metadata idx ((doc_id, score) # rest) =
     (case doc_metadata idx doc_id of
        None \<Rightarrow> Inl KeyError
      | Some meta \<Rightarrow>
          (case with_metadata idx rest of
             Inl e \<Rightarrow> Inl e
           | Inr out \<Rightarrow> Inr ((doc_id, score, meta) # out)))"

definition search ::
  "clir_system \<Rightarrow> string \<Rightarrow> string \<Rightarrow> int \<Rightarrow> string \<Rightarrow> clock
     \<Rightarrow> error + ((nat \<times> real \<times> doc_meta) list \<times> clir_system)" where
  "search self query0 method top_k query_lang clk =
     (let original_query = query0;
          query = (if query_lang \<noteq> ''en''
                   then translate_query self query0 query_lang ''en'' else query0);
          query_terms = tokenize query
      in case retrieval_models self ''bm25'' of
           None \<Rightarrow> Inl KeyError
         | Some dflt \<Rightarrow>
             (let model = (case retrieval_models self method of None \<Rightarrow> dflt | Some m \<Rightarrow> m)
              in case score_all model (clir_index self) query_terms
                        [0 ..< length (documents self)] of
                   Inl e \<Rightarrow> Inl e
                 | Inr scores \<Rightarrow>
                     (let sorted_scores = sort_desc scores;
                          ranked = slice_to sorted_scores top_k;
                          elapsed_time = end_time clk - start_time clk
                      in case result_entries (clir_index self) ranked of
                           Inl e \<Rightarrow> Inl e
                         | Inr entries \<Rightarrow>
                             (let search_record =
                                    \<lparr>rec_query = original_query,
                                     translated_query =
                                       (if query \<noteq> original_query then Some query else None),
                                     query_language = query_lang,
                                     rec_method = method,
                                     num_results = length ranked,
                                     latency_seconds = elapsed_time,
                                     timestamp = now_iso clk,
                                     results = entries\<rparr>;
                                  self' = self\<lparr>search_history :=
                                            search_history self @ [search_record]\<rparr>
                              in case with_metadata (clir_index self) ranked of
                                   Inl e \<Rightarrow> Inl e
                                 | Inr out \<Rightarrow> Inr (out, self')))))"

text \<open>
  The state \<open>scrape_and_index\<close> leaves once \<open>self.documents\<close> is fixed: the index built
  over the documents and the two models registered, BM25 with its default parameters.
  The translator and the history are whatever the system holds.
\<close>

definition default_models :: "string \<rightharpoonup> retrieval_model" where
  "default_models = [''tfidf'' \<mapsto> TFIDFRetrieval, ''bm25'' \<mapsto> BM25Retrieval 1.5 0.75]"

definition indexed_system ::
  "document list \<Rightarrow> translator option \<Rightarrow> search_record list \<Rightarrow> clir_system" where
  "indexed_system docs tr history =
     \<lparr>documents = docs,
      clir_index = build_index InvertedIndex_init docs,
      retrieval_models = default_models,
      translator = tr,
      search_history = history\<rparr>"

section \<open>Corpus-level notions and auxiliary definitions\<close>

text \<open>
  The definitions below are not translations of source functions: they name what the
  statements about the code refer to (the tokens of a document, term and document
  frequency on the corpus, the ranking order, the policy of the tokenizer in the words
  of the specification), the loop invariant of \<open>build_index\<close>, the parts of one
  \<open>search\<close> call, and the sample inputs.
\<close>

text \<open>
  The token list of a document, and the posting list the corpus prescribes for a term:
  one posting per document that contains the term, in the order of the documents, with
  the number of occurrences. The loop invariant of \<open>build_index\<close> relates the index
  after the first documents to both.
\<close>

definition doc_tokens :: "document \<Rightarrow> string list" where
  "doc_tokens doc = tokenize (title doc @ '' '' @ body doc)"

definition expected_postings :: "string list list \<Rightarrow> string \<Rightarrow> posting list" where
  "expected_postings tls t =
     map (\<lambda>(d, toks). (d, count_list toks t))
       (filter (\<lambda>(d, toks). t \<in> set toks) (enumerate 0 tls))"

definition meta_of :: "document \<Rightarrow> doc_meta" where
  "meta_of doc = \<lparr>meta_title = title doc, meta_url = url doc,
                   meta_date = date doc, meta_language = language doc\<rparr>"

definition index_inv :: "string list list \<Rightarrow> inverted_index \<times> nat \<Rightarrow> bool" where
  "index_inv tls st =
     (distinct (map fst (index (fst st)))
      \<and> (\<forall>t. map_of (index (fst st)) t =
               (if expected_postings tls t = [] then None else Some (expected_postings tls t)))
      \<and> (\<forall>d. doc_lengths (fst st) d = (if d < length tls then Some (length (tls ! d)) else None))
      \<and> snd st = sum_list (map length tls)
      \<and> vocabulary (fst st) = \<Union> (set ` set tls))"

text \<open>The index a build leaves, in terms of the tokenized corpus.\<close>

abbreviation built :: "document list \<Rightarrow> inverted_index" where
  "built docs \<equiv> build_index InvertedIndex_init docs"

text \<open>
  The sum of the term frequencies stored for one document, over all posting lists of the
  index; and the postings of a corpus whose first document has number \<open>n\<close>.
\<close>

definition stored_tf_sum :: "inverted_index \<Rightarrow> nat \<Rightarrow> nat" where
  "stored_tf_sum self doc_id =
     sum_list (map (\<lambda>(term, postings). sum_list (map snd (filter (\<lambda>p. fst p = doc_id) postings)))
                 (index self))"

definition postings_from :: "nat \<Rightarrow> string list list \<Rightarrow> string \<Rightarrow> posting list" where
  "postings_from n tls t =
     map (\<lambda>(d, toks). (d, count_list toks t))
       (filter (\<lambda>(d, toks). t \<in> set toks) (enumerate n tls))"

text \<open>
  The glossary's notions on the tokenized corpus: the term frequency of a term in a
  document is its number of occurrences among the document's tokens (0 for a document
  id outside the batch), the document frequency of a term is the number of documents
  that contain it. \<open>bm25_value\<close> is the BM25 summand as a real number, where
  \<open>bm25_term\<close> raises on a zero divisor.
\<close>

definition term_frequency :: "document list \<Rightarrow> string \<Rightarrow> nat \<Rightarrow> nat" where
  "term_frequency docs t d = (if d < length docs then count_list (doc_tokens (docs ! d)) t else 0)"

definition document_frequency :: "document list \<Rightarrow> string \<Rightarrow> nat" where
  "document_frequency docs t = length (filter (\<lambda>doc. t \<in> set (doc_tokens doc)) docs)"

definition bm25_value :: "real \<Rightarrow> real \<Rightarrow> real \<Rightarrow> real \<Rightarrow> real \<Rightarrow> nat \<Rightarrow> real" where
  "bm25_value k1 b idf doc_len avgdl tf =
     idf * (real tf * (k1 + 1) / (real tf + k1 * (1 - b + b * (doc_len / avgdl))))"

text \<open>
  A document made of a text alone (empty title, so \<open>title + ' ' + body\<close> is the
  text after one space), and the corpus of scenario A.
\<close>

definition text_doc :: "string \<Rightarrow> document" where
  "text_doc text = \<lparr>title = '''', body = text, url = '''', date = '''', language = ''en''\<rparr>"

definition scenario_a :: "document list" where
  "scenario_a = [text_doc ''cat dog'', text_doc ''cat cat mouse'', text_doc ''dog mouse mouse'']"

text \<open>
  \<open>rank_before x y\<close>: the pair \<open>x\<close> precedes \<open>y\<close> in a ranking by descending score
  with ties broken by ascending document id. \<open>positive_scores\<close> is the list the
  scoring loop builds when no score raises.
\<close>

definition rank_before :: "nat \<times> real \<Rightarrow> nat \<times> real \<Rightarrow> bool" where
  "rank_before x y = (snd y < snd x \<or> (snd x = snd y \<and> fst x < fst y))"

definition positive_scores ::
  "retrieval_model \<Rightarrow> inverted_index \<Rightarrow> string list \<Rightarrow> nat list \<Rightarrow> (nat \<times> real) list" where
  "positive_scores model idx query_terms ids =
     concat (map (\<lambda>d. case score_document model idx query_terms d of
                         Inl e \<Rightarrow> []
                       | Inr s \<Rightarrow> if 0 < s then [(d, s)] else []) ids)"

text \<open>
  The parts of one \<open>search\<close> call on an indexed system: the query after the optional
  translation, the model the registry returns for a method name, the ranked and
  truncated pairs, and the record appended to the history.
\<close>

definition working_query :: "clir_system \<Rightarrow> string \<Rightarrow> string \<Rightarrow> string" where
  "working_query self query query_lang =
     (if query_lang \<noteq> ''en'' then translate_query self query query_lang ''en'' else query)"

definition selected_model :: "string \<Rightarrow> retrieval_model" where
  "selected_model method =
     (case default_models method of None \<Rightarrow> BM25Retrieval 1.5 0.75 | Some m \<Rightarrow> m)"

definition ranked_results ::
  "document list \<Rightarrow> retrieval_model \<Rightarrow> string list \<Rightarrow> int \<Rightarrow> (nat \<times> real) list" where
  "ranked_results docs model query_terms top_k =
     slice_to (sort_desc (positive_scores model (built docs) query_terms [0 ..< length docs])) top_k"

definition entry_of :: "document list \<Rightarrow> nat \<times> real \<Rightarrow> result_entry" where
  "entry_of docs x =
     \<lparr>res_doc_id = fst x, res_score = snd x,
      res_title = title (docs ! fst x), res_url = url (docs ! fst x)\<rparr>"

definition history_record ::
  "document list \<Rightarrow> string \<Rightarrow> string \<Rightarrow> string \<Rightarrow> string \<Rightarrow> clock \<Rightarrow> (nat \<times> real) list
     \<Rightarrow> search_record" where
  "history_record docs query wq method query_lang clk ranked =
     \<lparr>rec_query = query,
      translated_query = (if wq \<noteq> query then Some wq else None),
      query_language = query_lang,
      rec_method = method,
      num_results = length ranked,
      latency_seconds = end_time clk - start_time clk,
      timestamp = now_iso clk,
      results = map (entry_of docs) ranked\<rparr>"

definition sample_clock :: clock where
  "sample_clock = \<lparr>start_time = 0, end_time = 1, now_iso = ''2024-12-15T00:00:00''\<rparr>"

text \<open>
  The policy in the words of the specification, to compare the tokenizer with:
  \<open>spec_words\<close> splits a text on whitespace (skip the whitespace, take the characters
  up to the next whitespace, go on with the rest); \<open>tokenize_policy keep\<close> lower-cases
  the text, replaces every character outside \<open>keep\<close> with a space, splits on
  whitespace and drops the tokens of length at most 2. \<open>tokenize_spec\<close> is the
  specification's policy: the characters kept are the letters, the digits and the
  whitespace.
\<close>

function spec_words :: "string \<Rightarrow> string list" where
  "spec_words s =
     (case dropWhile is_space s of
        [] \<Rightarrow> []
      | c # cs \<Rightarrow>
          (c # takeWhile (\<lambda>x. \<not> is_space x) cs)
          # spec_words (dropWhile (\<lambda>x. \<not> is_space x) cs))"
  by pat_completeness auto

termination
proof (relation "measure length")
  show "wf (measure length)" by simp
next
  fix s :: string and c cs
  assume "dropWhile is_space s = c # cs"
  then have "length (c # cs) \<le> length s"
    by (metis length_dropWhile_le)
  moreover have "length (dropWhile (\<lambda>x. \<not> is_space x) cs) \<le> length cs"
    by (rule length_dropWhile_le)
  ultimately show "(dropWhile (\<lambda>x. \<not> is_space x) cs, s) \<in> measure length"
    by simp
qed

declare spec_words.simps [simp del]

definition tokenize_policy :: "(char \<Rightarrow> bool) \<Rightarrow> string \<Rightarrow> string list" where
  "tokenize_policy keep text =
     filter (\<lambda>t. \<not> length t \<le> 2)
       (spec_words (map (\<lambda>c. if keep c then c else CHR '' '') (map lower_char text)))"

definition tokenize_spec :: "string \<Rightarrow> string list" where
  "tokenize_spec text = tokenize_policy (\<lambda>c. is_alnum c \<or> is_space c) text"

section \<open>The index a build leaves\<close>

lemma counter_add_fst:
  "map fst (counter_add t cs) = (if t \<in> set (map fst cs) then map fst cs else map fst cs @ [t])"
  by (induction t cs rule: counter_add.induct) auto

lemma counter_add_keys: "set (map fst (counter_add t cs)) = insert t (set (map fst cs))"
  by (simp only: counter_add_fst) auto

lemma counter_add_distinct:
  "distinct (map fst cs) \<Longrightarrow> distinct (map fst (counter_add t cs))"
proof (induction cs)
  case Nil
  then show ?case by simp
next
  case (Cons a cs)
  obtain k c where a: "a = (k, c)" by (cases a)
  have "k \<noteq> t \<Longrightarrow> k \<notin> set (map fst (counter_add t cs))"
    using Cons.prems a unfolding counter_add_keys by simp
  with Cons a show ?case by auto
qed

lemma counter_add_map_of:
  "map_of (counter_add t cs) =
     (map_of cs)(t \<mapsto> (case map_of cs t of None \<Rightarrow> 1 | Some c \<Rightarrow> c + 1))"
  by (induction cs) (auto simp: fun_eq_iff)

lemma counter_fold_distinct:
  "distinct (map fst cs) \<Longrightarrow> distinct (map fst (foldl (\<lambda>cs t. counter_add t cs) cs toks))"
  by (induction toks arbitrary: cs) (simp_all add: counter_add_distinct)

lemma counter_fold_map_of:
  "map_of (foldl (\<lambda>cs t. counter_add t cs) cs toks) t =
     (case map_of cs t of
        None \<Rightarrow> if t \<in> set toks then Some (count_list toks t) else None
      | Some c \<Rightarrow> Some (c + count_list toks t))"
proof (induction toks arbitrary: cs)
  case Nil
  then show ?case by (simp split: option.splits)
next
  case (Cons a toks)
  show ?case
    by (simp add: Cons.IH counter_add_map_of split: option.splits)
qed

lemma Counter_distinct: "distinct (map fst (Counter toks))"
  by (simp add: Counter_def counter_fold_distinct)

lemma Counter_map_of:
  "map_of (Counter toks) t = (if t \<in> set toks then Some (count_list toks t) else None)"
  by (simp add: Counter_def counter_fold_map_of)

lemma append_posting_fst:
  "map fst (append_posting t p al) =
     (if t \<in> set (map fst al) then map fst al else map fst al @ [t])"
  by (induction t p al rule: append_posting.induct) auto

lemma append_posting_keys:
  "set (map fst (append_posting t p al)) = insert t (set (map fst al))"
  by (simp only: append_posting_fst) auto

lemma append_posting_distinct:
  "distinct (map fst al) \<Longrightarrow> distinct (map fst (append_posting t p al))"
proof (induction al)
  case Nil
  then show ?case by simp
next
  case (Cons a al)
  obtain k ps where a: "a = (k, ps)" by (cases a)
  have "k \<noteq> t \<Longrightarrow> k \<notin> set (map fst (append_posting t p al))"
    using Cons.prems a unfolding append_posting_keys by simp
  with Cons a show ?case by auto
qed

lemma append_posting_map_of:
  "map_of (append_posting t p al) =
     (map_of al)(t \<mapsto> (case map_of al t of None \<Rightarrow> [] | Some ps \<Rightarrow> ps) @ [p])"
  by (induction al) (auto simp: fun_eq_iff)

lemma add_postings_fields:
  "doc_lengths (add_postings d tfs self) = doc_lengths self"
  "doc_metadata (add_postings d tfs self) = doc_metadata self"
  "total_docs (add_postings d tfs self) = total_docs self"
  "avg_doc_length (add_postings d tfs self) = avg_doc_length self"
  by (induction d tfs self rule: add_postings.induct) simp_all

lemma add_postings_vocabulary:
  "vocabulary (add_postings d tfs self) = vocabulary self \<union> set (map fst tfs)"
  by (induction d tfs self rule: add_postings.induct) auto

lemma add_postings_distinct:
  "distinct (map fst (index self)) \<Longrightarrow> distinct (map fst (index (add_postings d tfs self)))"
  by (induction d tfs self rule: add_postings.induct) (simp_all add: append_posting_distinct)

lemma add_postings_keys:
  "set (map fst (index (add_postings d tfs self))) =
     set (map fst (index self)) \<union> set (map fst tfs)"
proof (induction d tfs self rule: add_postings.induct)
  case (1 doc_id self)
  then show ?case by simp
next
  case (2 doc_id "term" tf rest self)
  show ?case
    unfolding add_postings.simps "2.IH" by (simp add: append_posting_keys del: set_map)
qed

lemma add_postings_map_of:
  "distinct (map fst tfs) \<Longrightarrow>
   map_of (index (add_postings d tfs self)) t =
     (case map_of tfs t of
        None \<Rightarrow> map_of (index self) t
      | Some tf \<Rightarrow> Some ((case map_of (index self) t of None \<Rightarrow> [] | Some ps \<Rightarrow> ps) @ [(d, tf)]))"
proof (induction d tfs self rule: add_postings.induct)
  case (1 doc_id self)
  then show ?case by simp
next
  case (2 doc_id "term" tf rest self)
  have notin: "map_of rest term = None"
    using "2.prems" by (simp add: map_of_eq_None_iff)
  show ?case
    using "2.prems" notin
    by (simp add: "2.IH" append_posting_map_of split: option.splits)
qed

lemma expected_postings_snoc:
  "expected_postings (tls @ [x]) t =
     expected_postings tls t @ (if t \<in> set x then [(length tls, count_list x t)] else [])"
  by (simp add: expected_postings_def enumerate_append_eq)

lemma index_inv_init: "index_inv [] (self\<lparr>index := [], doc_lengths := Map.empty, vocabulary := {}\<rparr>, 0)"
  by (simp add: index_inv_def expected_postings_def)

lemma Counter_keys: "set (map fst (Counter toks)) = set toks"
proof -
  have "dom (map_of (Counter toks)) = set toks"
    by (auto simp: Counter_map_of dom_def)
  then show ?thesis by (simp add: dom_map_of_conv_image_fst)
qed

lemma index_document_fst:
  "fst (index_document d doc st) =
     add_postings d (Counter (doc_tokens doc))
       ((fst st)\<lparr>doc_metadata := (doc_metadata (fst st))(d \<mapsto> meta_of doc),
                 doc_lengths := (doc_lengths (fst st))(d \<mapsto> length (doc_tokens doc))\<rparr>)"
  by (simp add: index_document_def doc_tokens_def meta_of_def Let_def)

lemma index_document_snd:
  "snd (index_document d doc st) = snd st + length (doc_tokens doc)"
  by (simp add: index_document_def doc_tokens_def Let_def)

lemma index_document_inv:
  assumes "index_inv tls st"
  shows "index_inv (tls @ [doc_tokens doc]) (index_document (length tls) doc st)"
proof -
  let ?toks = "doc_tokens doc"
  let ?st' = "index_document (length tls) doc st"
  from assms have d: "distinct (map fst (index (fst st)))"
    and m: "\<And>t. map_of (index (fst st)) t =
               (if expected_postings tls t = [] then None else Some (expected_postings tls t))"
    and l: "\<And>d. doc_lengths (fst st) d = (if d < length tls then Some (length (tls ! d)) else None)"
    and s: "snd st = sum_list (map length tls)"
    and v: "vocabulary (fst st) = \<Union> (set ` set tls)"
    by (simp_all add: index_inv_def)
  have 1: "distinct (map fst (index (fst ?st')))"
    unfolding index_document_fst by (rule add_postings_distinct) (simp add: d)
  have 2: "map_of (index (fst ?st')) t =
      (if expected_postings (tls @ [?toks]) t = [] then None
       else Some (expected_postings (tls @ [?toks]) t))" for t
    unfolding index_document_fst
    by (simp add: add_postings_map_of [OF Counter_distinct] Counter_map_of m
        expected_postings_snoc)
  have 3: "doc_lengths (fst ?st') d =
      (if d < length (tls @ [?toks]) then Some (length ((tls @ [?toks]) ! d)) else None)" for d
    unfolding index_document_fst
    by (simp add: add_postings_fields l nth_append)
  have 4: "snd ?st' = sum_list (map length (tls @ [?toks]))"
    by (simp add: index_document_snd s)
  have 5: "vocabulary (fst ?st') = \<Union> (set ` set (tls @ [?toks]))"
    unfolding index_document_fst add_postings_vocabulary Counter_keys
    by (auto simp: v)
  show ?thesis
    unfolding index_inv_def using 1 2 3 4 5 by blast
qed

lemma index_documents_inv:
  "index_inv tls st \<Longrightarrow>
   index_inv (tls @ map doc_tokens docs) (index_documents (length tls) docs st)"
proof (induction docs arbitrary: tls st)
  case Nil
  then show ?case by simp
next
  case (Cons doc docs)
  have "index_inv ((tls @ [doc_tokens doc]) @ map doc_tokens docs)
          (index_documents (length (tls @ [doc_tokens doc])) docs
             (index_document (length tls) doc st))"
    by (rule Cons.IH) (rule index_document_inv [OF Cons.prems])
  then show ?case by simp
qed

lemma index_documents_total_docs:
  "total_docs (fst (index_documents n docs st)) = total_docs (fst st)"
  by (induction n docs st rule: index_documents.induct)
     (simp_all add: index_document_fst add_postings_fields)

lemma index_documents_metadata:
  "doc_metadata (fst (index_documents n docs st)) d =
     (if n \<le> d \<and> d < n + length docs then Some (meta_of (docs ! (d - n)))
      else doc_metadata (fst st) d)"
proof (induction n docs st rule: index_documents.induct)
  case (1 doc_id st)
  then show ?case by auto
next
  case (2 doc_id doc docs st)
  show ?case
    by (auto simp: "2.IH" index_document_fst add_postings_fields nth_Cons'
        Suc_diff_le)
qed

lemma built_inv:
  "index_inv (map doc_tokens docs)
     (index_documents 0 docs (InvertedIndex_init\<lparr>total_docs := length docs\<rparr>, 0))"
proof -
  have "index_inv [] (InvertedIndex_init\<lparr>total_docs := length docs\<rparr>, 0)"
    by (simp add: index_inv_def expected_postings_def InvertedIndex_init_def)
  from index_documents_inv [OF this, of docs] show ?thesis by simp
qed

lemma built_total_docs: "total_docs (built docs) = length docs"
  by (simp add: build_index_def Let_def index_documents_total_docs)

lemma built_index_distinct: "distinct (map fst (index (built docs)))"
  using built_inv [of docs] by (simp add: build_index_def Let_def index_inv_def)

lemma built_map_of:
  "map_of (index (built docs)) t =
     (if expected_postings (map doc_tokens docs) t = [] then None
      else Some (expected_postings (map doc_tokens docs) t))"
  using built_inv [of docs] by (simp add: build_index_def Let_def index_inv_def)

lemma built_postings:
  "get_postings (built docs) t = expected_postings (map doc_tokens docs) t"
  by (simp add: get_postings_def built_map_of)

lemma built_doc_lengths:
  "doc_lengths (built docs) d =
     (if d < length docs then Some (length (doc_tokens (docs ! d))) else None)"
  using built_inv [of docs] by (simp add: build_index_def Let_def index_inv_def)

lemma built_doc_metadata:
  "doc_metadata (built docs) d = (if d < length docs then Some (meta_of (docs ! d)) else None)"
  by (simp add: build_index_def Let_def index_documents_metadata InvertedIndex_init_def)

lemma built_vocabulary:
  "vocabulary (built docs) = \<Union> (set ` doc_tokens ` set docs)"
  using built_inv [of docs] by (simp add: build_index_def Let_def index_inv_def)

lemma built_avg_doc_length:
  "avg_doc_length (built docs) =
     (if length docs > 0
      then real (sum_list (map (length \<circ> doc_tokens) docs)) / real (length docs) else 0)"
  using built_inv [of docs]
  by (simp add: build_index_def Let_def index_inv_def index_documents_total_docs comp_def)

lemma expected_postings_from: "expected_postings tls t = postings_from 0 tls t"
  by (simp add: expected_postings_def postings_from_def)

lemma postings_from_Nil [simp]: "postings_from n [] t = []"
  by (simp add: postings_from_def)

lemma postings_from_Cons [simp]:
  "postings_from n (x # tls) t =
     (if t \<in> set x then (n, count_list x t) # postings_from (Suc n) tls t
      else postings_from (Suc n) tls t)"
  by (simp add: postings_from_def)

lemma postings_from_length: "length (postings_from n tls t) \<le> length tls"
  by (induction tls arbitrary: n) (auto intro: le_SucI)

lemma postings_from_find_tf:
  "find_tf (postings_from n tls t) d =
     (if n \<le> d \<and> d < n + length tls then count_list (tls ! (d - n)) t else 0)"
proof (induction tls arbitrary: n)
  case Nil
  then show ?case by simp
next
  case (Cons x tls)
  show ?case
    by (auto simp: Cons.IH nth_Cons' Suc_diff_le count_list_0_iff)
qed

lemma postings_from_filter:
  "filter (\<lambda>p. fst p = d) (postings_from n tls t) =
     (if n \<le> d \<and> d < n + length tls \<and> t \<in> set (tls ! (d - n))
      then [(d, count_list (tls ! (d - n)) t)] else [])"
proof (induction tls arbitrary: n)
  case Nil
  then show ?case by simp
next
  case (Cons x tls)
  show ?case
    by (simp add: Cons.IH nth_Cons' Suc_diff_le)
qed

lemma postings_from_tf_sum:
  "sum_list (map snd (filter (\<lambda>p. fst p = d) (postings_from n tls t))) =
     (if n \<le> d \<and> d < n + length tls then count_list (tls ! (d - n)) t else 0)"
  by (auto simp: postings_from_filter count_list_0_iff)

lemma postings_from_empty_iff:
  "postings_from n tls t = [] \<longleftrightarrow> (\<forall>toks \<in> set tls. t \<notin> set toks)"
  by (induction tls arbitrary: n) auto

lemma postings_from_pos: "(pid, ptf) \<in> set (postings_from n tls t) \<Longrightarrow> 0 < ptf"
proof (induction tls arbitrary: n)
  case Nil
  then show ?case by simp
next
  case (Cons x tls)
  show ?case
  proof (cases "(pid, ptf) \<in> set (postings_from (Suc n) tls t)")
    case True
    then show ?thesis by (rule Cons.IH)
  next
    case False
    with Cons.prems have "t \<in> set x" "ptf = count_list x t"
      by (auto split: if_splits)
    then show ?thesis using count_list_0_iff [of x t] by auto
  qed
qed

lemma expected_postings_length: "length (expected_postings tls t) \<le> length tls"
  by (simp add: expected_postings_from postings_from_length)

lemma expected_postings_find_tf:
  "find_tf (expected_postings tls t) d = (if d < length tls then count_list (tls ! d) t else 0)"
  by (simp add: expected_postings_from postings_from_find_tf)

lemma expected_postings_tf_sum:
  "sum_list (map snd (filter (\<lambda>p. fst p = d) (expected_postings tls t))) =
     (if d < length tls then count_list (tls ! d) t else 0)"
  by (simp add: expected_postings_from postings_from_tf_sum)

lemma expected_postings_empty_iff:
  "expected_postings tls t = [] \<longleftrightarrow> (\<forall>toks \<in> set tls. t \<notin> set toks)"
  by (simp add: expected_postings_from postings_from_empty_iff)

lemma expected_postings_tokens:
  assumes "expected_postings tls t \<noteq> []"
  shows "0 < sum_list (map length tls)"
proof -
  from assms obtain toks where "toks \<in> set tls" "t \<in> set toks"
    by (auto simp: expected_postings_empty_iff)
  then have "toks \<in> set tls" "0 < length toks" by auto
  then show ?thesis
    by (induction tls) auto
qed

lemma built_keys:
  "set (map fst (index (built docs))) = \<Union> (set ` doc_tokens ` set docs)"
proof -
  have "set (map fst (index (built docs))) = dom (map_of (index (built docs)))"
    by (simp add: dom_map_of_conv_image_fst)
  also have "\<dots> = {t. expected_postings (map doc_tokens docs) t \<noteq> []}"
    by (auto simp: dom_def built_map_of)
  also have "\<dots> = \<Union> (set ` doc_tokens ` set docs)"
    by (auto simp: expected_postings_empty_iff)
  finally show ?thesis .
qed

lemma built_entry:
  assumes "(t, ps) \<in> set (index (built docs))"
  shows "ps = expected_postings (map doc_tokens docs) t"
proof -
  from assms have "map_of (index (built docs)) t = Some ps"
    by (simp add: built_index_distinct)
  then show ?thesis
    by (simp add: built_map_of split: if_splits)
qed

lemma built_stored_tf_sum:
  "stored_tf_sum (built docs) d = (if d < length docs then length (doc_tokens (docs ! d)) else 0)"
proof -
  let ?tls = "map doc_tokens docs"
  let ?h = "\<lambda>t. if d < length docs then count_list (doc_tokens (docs ! d)) t else 0"
  have "map (\<lambda>(term, postings). sum_list (map snd (filter (\<lambda>p. fst p = d) postings)))
          (index (built docs)) = map (\<lambda>e. ?h (fst e)) (index (built docs))"
  proof (rule map_cong [OF refl])
    fix e assume e: "e \<in> set (index (built docs))"
    obtain t ps where tp: "e = (t, ps)" by (cases e)
    with e have "ps = expected_postings ?tls t" by (simp add: built_entry)
    with tp show "(case e of (term, postings) \<Rightarrow>
              sum_list (map snd (filter (\<lambda>p. fst p = d) postings))) = ?h (fst e)"
      by (simp add: expected_postings_tf_sum)
  qed
  then have "stored_tf_sum (built docs) d =
      sum_list (map (\<lambda>e. ?h (fst e)) (index (built docs)))"
    unfolding stored_tf_sum_def by (rule arg_cong)
  also have "\<dots> = sum_list (map ?h (map fst (index (built docs))))"
    by (simp only: map_map comp_def)
  also have "\<dots> = sum ?h (set (map fst (index (built docs))))"
    by (rule sum_list_distinct_conv_sum_set) (rule built_index_distinct)
  also have "\<dots> = (if d < length docs then length (doc_tokens (docs ! d)) else 0)"
  proof (cases "d < length docs")
    case True
    then have "doc_tokens (docs ! d) \<in> doc_tokens ` set docs" by simp
    then have sub: "set (doc_tokens (docs ! d)) \<subseteq> set (map fst (index (built docs)))"
      unfolding built_keys by blast
    have "sum (count_list (doc_tokens (docs ! d))) (set (map fst (index (built docs))))
        = length (doc_tokens (docs ! d))"
      by (rule sum_count_set [OF sub]) simp
    with True show ?thesis by simp
  next
    case False
    then show ?thesis by simp
  qed
  finally show ?thesis .
qed

lemma built_doc_lengths_dom: "dom (doc_lengths (built docs)) = {0 ..< length docs}"
  by (auto simp: dom_def built_doc_lengths)

lemma built_doc_lengths_sum:
  "(\<Sum>i \<in> dom (doc_lengths (built docs)). the (doc_lengths (built docs) i)) =
     sum_list (map (length \<circ> doc_tokens) docs)"
proof -
  have "(\<Sum>i \<in> dom (doc_lengths (built docs)). the (doc_lengths (built docs) i)) =
      (\<Sum>i = 0 ..< length docs. length (doc_tokens (docs ! i)))"
    unfolding built_doc_lengths_dom by (rule sum.cong) (simp_all add: built_doc_lengths)
  also have "\<dots> = sum_list (map (length \<circ> doc_tokens) docs)"
    by (simp add: sum_list_sum_nth)
  finally show ?thesis .
qed

subsection \<open>The invariants of the built index\<close>

text \<open>
  C2. After \<open>build_index\<close> on a fresh index and any batch of documents:
  \<open>avg_doc_length\<close> is the sum of the recorded document lengths divided by
  \<open>total_docs\<close> when there are documents, and 0 otherwise; \<open>get_doc_freq\<close> of a
  term is the length of its posting list; the recorded length of document \<open>d\<close> is
  the number of tokens of \<open>title + ' ' + body\<close>; and the term frequencies stored for
  \<open>d\<close> across all posting lists add up to that number.
\<close>

theorem build_index_invariants:
  "avg_doc_length (build_index InvertedIndex_init docs) =
     (if total_docs (build_index InvertedIndex_init docs) > 0
      then real (\<Sum>i \<in> dom (doc_lengths (build_index InvertedIndex_init docs)).
                   the (doc_lengths (build_index InvertedIndex_init docs) i))
           / real (total_docs (build_index InvertedIndex_init docs))
      else 0)
   \<and> get_doc_freq (build_index InvertedIndex_init docs) term =
       length (get_postings (build_index InvertedIndex_init docs) term)
   \<and> doc_lengths (build_index InvertedIndex_init docs) d =
       (if d < length docs
        then Some (length (tokenize (title (docs ! d) @ '' '' @ body (docs ! d)))) else None)
   \<and> stored_tf_sum (build_index InvertedIndex_init docs) d =
       (if d < length docs
        then length (tokenize (title (docs ! d) @ '' '' @ body (docs ! d))) else 0)"
proof (intro conjI)
  show "avg_doc_length (built docs) =
     (if total_docs (built docs) > 0
      then real (\<Sum>i \<in> dom (doc_lengths (built docs)). the (doc_lengths (built docs) i))
           / real (total_docs (built docs))
      else 0)"
    by (simp only: built_doc_lengths_sum built_avg_doc_length built_total_docs)
  show "get_doc_freq (built docs) term = length (get_postings (built docs) term)"
    by (simp add: get_doc_freq_def get_postings_def)
  show "doc_lengths (built docs) d =
       (if d < length docs
        then Some (length (tokenize (title (docs ! d) @ '' '' @ body (docs ! d)))) else None)"
    by (simp add: built_doc_lengths doc_tokens_def)
  show "stored_tf_sum (built docs) d =
       (if d < length docs
        then length (tokenize (title (docs ! d) @ '' '' @ body (docs ! d))) else 0)"
    by (simp add: built_stored_tf_sum doc_tokens_def)
qed

section \<open>The scores in closed form\<close>

lemma postings_from_df:
  "length (postings_from n tls t) = length (filter (\<lambda>toks. t \<in> set toks) tls)"
  by (induction tls arbitrary: n) simp_all

lemma built_df: "get_doc_freq (built docs) t = document_frequency docs t"
proof -
  have "get_doc_freq (built docs) t = length (get_postings (built docs) t)"
    by (simp add: get_doc_freq_def get_postings_def)
  also have "\<dots> = length (filter (\<lambda>toks. t \<in> set toks) (map doc_tokens docs))"
    by (simp only: built_postings expected_postings_from postings_from_df)
  also have "\<dots> = document_frequency docs t"
    by (simp add: document_frequency_def filter_map comp_def)
  finally show ?thesis .
qed

lemma built_postings_length: "length (get_postings (built docs) t) = document_frequency docs t"
  using built_df [of docs t] by (simp add: get_doc_freq_def get_postings_def)

lemma built_postings_empty_iff:
  "get_postings (built docs) t = [] \<longleftrightarrow> document_frequency docs t = 0"
  using built_postings_length [of docs t] by auto

lemma built_tf: "find_tf (get_postings (built docs) t) d = term_frequency docs t d"
  by (simp add: built_postings expected_postings_find_tf term_frequency_def)

lemma document_frequency_le: "document_frequency docs t \<le> length docs"
  by (simp add: document_frequency_def)

lemma term_frequency_pos_df:
  assumes "0 < term_frequency docs t d"
  shows "0 < document_frequency docs t"
proof -
  from assms have d: "d < length docs" and "t \<in> set (doc_tokens (docs ! d))"
    using count_list_0_iff [of "doc_tokens (docs ! d)" t]
    by (auto simp: term_frequency_def split: if_splits)
  then have "docs ! d \<in> set (filter (\<lambda>doc. t \<in> set (doc_tokens doc)) docs)"
    by simp
  then have "filter (\<lambda>doc. t \<in> set (doc_tokens doc)) docs \<noteq> []"
    by (metis empty_iff list.set(1))
  then show ?thesis by (simp add: document_frequency_def)
qed

lemma df_pos_avg_pos:
  assumes "0 < document_frequency docs t"
  shows "0 < avg_doc_length (built docs)"
proof -
  from assms have ne: "expected_postings (map doc_tokens docs) t \<noteq> []"
    using built_postings_length [of docs t] by (auto simp: built_postings)
  then have "0 < sum_list (map length (map doc_tokens docs))"
    by (rule expected_postings_tokens)
  moreover from assms have "0 < length docs"
    by (cases docs) (simp_all add: document_frequency_def)
  ultimately show ?thesis
    by (simp add: built_avg_doc_length comp_def)
qed

lemma avg_zero_no_postings:
  assumes "avg_doc_length (built docs) = 0"
  shows "get_postings (built docs) t = []"
proof (rule ccontr)
  assume "get_postings (built docs) t \<noteq> []"
  then have "0 < length (get_postings (built docs) t)"
    by simp
  then have "0 < document_frequency docs t"
    by (simp only: built_postings_length)
  from df_pos_avg_pos [OF this] assms show False by simp
qed

text \<open>The loops as sums.\<close>

lemma tfidf_loop_sum:
  "tfidf_loop self d terms score =
     score + sum_list (map (\<lambda>t. tfidf_term (tfidf_idf (total_docs self) (get_doc_freq self t))
                                  (find_tf (get_postings self t) d))
                        (filter (\<lambda>t. 0 < get_doc_freq self t \<and> 0 < find_tf (get_postings self t) d)
                           terms))"
proof (induction terms arbitrary: score)
  case Nil
  then show ?case by simp
next
  case (Cons t terms)
  have df: "get_doc_freq self t = length (get_postings self t)"
    by (simp add: get_doc_freq_def get_postings_def)
  show ?case
    by (simp add: Cons.IH Let_def df)
qed

lemma bm25_loop_no_postings:
  assumes "\<And>t. get_postings self t = []"
  shows "bm25_loop k1 b self d doc_len terms score = Inr score"
  by (induction terms) (simp_all add: assms)

lemma bm25_term_value:
  assumes "0 \<le> k1" "0 \<le> b" "b \<le> 1" "0 \<le> doc_len" "0 < avgdl" "0 < tf"
  shows "bm25_term k1 b idf doc_len avgdl tf = Inr (bm25_value k1 b idf doc_len avgdl tf)"
proof -
  have "0 \<le> b * (doc_len / avgdl)" using assms by simp
  moreover have "0 \<le> 1 - b" using assms by simp
  ultimately have "0 \<le> k1 * (1 - b + b * (doc_len / avgdl))"
    using assms(1) by simp
  moreover have "0 < real tf" using assms by simp
  ultimately have "0 < real tf + k1 * (1 - b + b * (doc_len / avgdl))"
    by linarith
  with assms(5) show ?thesis
    by (simp add: bm25_term_def bm25_value_def Let_def)
qed

lemma bm25_loop_sum:
  assumes "0 \<le> k1" "0 \<le> b" "b \<le> 1" "0 \<le> doc_len"
  shows "bm25_loop k1 b (built docs) d doc_len terms score =
     Inr (score + sum_list (map (\<lambda>t. bm25_value k1 b
                                   (bm25_idf (length docs) (document_frequency docs t))
                                   doc_len (avg_doc_length (built docs)) (term_frequency docs t d))
                        (filter (\<lambda>t. 0 < document_frequency docs t \<and> 0 < term_frequency docs t d)
                           terms)))"
proof (induction terms arbitrary: score)
  case Nil
  then show ?case by simp
next
  case (Cons t terms)
  show ?case
  proof (cases "0 < document_frequency docs t \<and> 0 < term_frequency docs t d")
    case True
    then have "0 < avg_doc_length (built docs)"
      using df_pos_avg_pos [of docs t] by blast
    from bm25_term_value [OF assms this, of "term_frequency docs t d"] True
    show ?thesis
      by (simp add: Cons.IH Let_def built_postings_length built_postings_empty_iff
          built_tf built_total_docs)
  next
    case False
    then show ?thesis
      by (auto simp: Cons.IH Let_def built_postings_length built_postings_empty_iff
          built_tf built_total_docs)
  qed
qed

lemma built_doc_len_nonneg:
  "0 \<le> (case doc_lengths (built docs) d of None \<Rightarrow> avg_doc_length (built docs) | Some l \<Rightarrow> real l)"
  by (simp add: built_doc_lengths built_avg_doc_length)

lemma tfidf_idf_ge_1:
  assumes "df \<le> N"
  shows "1 \<le> tfidf_idf N df"
proof -
  have "1 \<le> (real N + 1) / (real df + 1)"
    using assms by (simp add: le_divide_eq)
  then have "0 \<le> ln ((real N + 1) / (real df + 1))"
    by simp
  then show ?thesis by (simp add: tfidf_idf_def)
qed

lemma tfidf_term_nonneg:
  assumes "0 \<le> idf"
  shows "0 \<le> tfidf_term idf tf"
  using assms by (simp add: tfidf_term_def)

lemma tfidf_term_mono:
  assumes "0 \<le> idf" "tf \<le> tf'"
  shows "tfidf_term idf tf \<le> tfidf_term idf tf'"
proof -
  have "ln (1 + real tf) \<le> ln (1 + real tf')"
    using assms(2) by simp
  then show ?thesis
    using assms(1) by (simp add: tfidf_term_def mult_right_mono)
qed

lemma bm25_idf_nonneg:
  assumes "df \<le> N"
  shows "0 \<le> bm25_idf N df"
proof -
  have "0 \<le> (real N - real df + 0.5) / (real df + 0.5)"
    using assms by simp
  then have "1 \<le> (real N - real df + 0.5) / (real df + 0.5) + 1"
    by simp
  then show ?thesis
    unfolding bm25_idf_def by (rule ln_ge_zero)
qed

lemma bm25_length_norm_nonneg:
  fixes k1 b doc_len avgdl :: real
  assumes "0 \<le> k1" "0 \<le> b" "b \<le> 1" "0 \<le> doc_len" "0 < avgdl"
  shows "0 \<le> k1 * (1 - b + b * (doc_len / avgdl))"
proof -
  have "0 \<le> doc_len / avgdl" using assms(4,5) by simp
  with assms(2) have "0 \<le> b * (doc_len / avgdl)" by (rule mult_nonneg_nonneg)
  moreover have "0 \<le> 1 - b" using assms(3) by simp
  ultimately have "0 \<le> 1 - b + b * (doc_len / avgdl)" by simp
  with assms(1) show ?thesis by (rule mult_nonneg_nonneg)
qed

lemma bm25_value_nonneg:
  assumes "0 \<le> idf" "0 \<le> k1" "0 \<le> b" "b \<le> 1" "0 \<le> doc_len" "0 < avgdl"
  shows "0 \<le> bm25_value k1 b idf doc_len avgdl tf"
proof -
  have "0 \<le> k1 * (1 - b + b * (doc_len / avgdl))"
    using assms by (simp add: bm25_length_norm_nonneg)
  then have "0 \<le> real tf + k1 * (1 - b + b * (doc_len / avgdl))"
    by simp
  moreover have "0 \<le> real tf * (k1 + 1)" using assms by simp
  ultimately have "0 \<le> real tf * (k1 + 1) / (real tf + k1 * (1 - b + b * (doc_len / avgdl)))"
    by (simp only: divide_nonneg_nonneg)
  with assms(1) show ?thesis
    unfolding bm25_value_def by (rule mult_nonneg_nonneg)
qed

lemma saturation_mono:
  fixes c :: real
  assumes "0 < c" "x \<le> y" "0 \<le> x"
  shows "x / (x + c) \<le> y / (y + c)"
proof -
  have "x * (y + c) \<le> y * (x + c)"
    using assms by (simp add: algebra_simps)
  moreover have "0 < x + c" "0 < y + c" using assms by simp_all
  ultimately show ?thesis
    by (simp add: frac_le_eq divide_le_0_iff field_simps)
qed

lemma bm25_value_mono:
  assumes "0 \<le> idf" "0 \<le> k1" "0 < k1 * (1 - b + b * (doc_len / avgdl))" "tf \<le> tf'"
  shows "bm25_value k1 b idf doc_len avgdl tf \<le> bm25_value k1 b idf doc_len avgdl tf'"
proof -
  let ?c = "k1 * (1 - b + b * (doc_len / avgdl))"
  have "real tf / (real tf + ?c) \<le> real tf' / (real tf' + ?c)"
    using assms by (intro saturation_mono) simp_all
  then have "real tf / (real tf + ?c) * (k1 + 1) \<le> real tf' / (real tf' + ?c) * (k1 + 1)"
    using assms(2) by (intro mult_right_mono) simp_all
  then have "real tf * (k1 + 1) / (real tf + ?c) \<le> real tf' * (k1 + 1) / (real tf' + ?c)"
    by simp
  then show ?thesis
    unfolding bm25_value_def using assms(1) by (rule mult_left_mono)
qed

lemma default_length_norm_pos:
  assumes "0 \<le> doc_len" "0 < avgdl"
  shows "0 < (1.5::real) * (1 - 0.75 + 0.75 * (doc_len / avgdl))"
proof -
  have "0 \<le> doc_len / avgdl" using assms by simp
  then show ?thesis by simp
qed

lemma bm25_term_default:
  assumes "0 \<le> doc_len" "0 < avgdl"
  shows "bm25_term 1.5 0.75 idf doc_len avgdl tf = Inr (bm25_value 1.5 0.75 idf doc_len avgdl tf)"
proof -
  have "0 < real tf + 1.5 * (1 - 0.75 + 0.75 * (doc_len / avgdl))"
    using default_length_norm_pos [OF assms] by linarith
  with assms(2) show ?thesis
    by (simp add: bm25_term_def bm25_value_def Let_def)
qed

subsection \<open>Sample corpora\<close>

lemma scenario_a_tokens:
  "map doc_tokens scenario_a =
     [[''cat'', ''dog''], [''cat'', ''cat'', ''mouse''], [''dog'', ''mouse'', ''mouse'']]"
  by code_simp

lemma scenario_a_df: "document_frequency scenario_a ''cat'' = 2"
  by code_simp

lemma scenario_a_tf:
  "term_frequency scenario_a ''cat'' 0 = 1"
  "term_frequency scenario_a ''cat'' 1 = 2"
  "term_frequency scenario_a ''cat'' 2 = 0"
  by code_simp+

lemma scenario_a_length: "length scenario_a = 3"
  by (simp add: scenario_a_def)

lemma scenario_a_lengths: "map (length \<circ> doc_tokens) scenario_a = [2, 3, 3]"
  by code_simp

lemma scenario_a_avg: "avg_doc_length (built scenario_a) = 8 / 3"
  by (simp add: built_avg_doc_length scenario_a_lengths scenario_a_length)

lemma scenario_a_doc_lengths:
  "doc_lengths (built scenario_a) 0 = Some 2"
  "doc_lengths (built scenario_a) 1 = Some 3"
  "doc_lengths (built scenario_a) 2 = Some 3"
  by (simp_all add: built_doc_lengths scenario_a_length) code_simp+

lemma document_frequency_pos_iff:
  "0 < document_frequency docs t \<longleftrightarrow> (\<exists>doc \<in> set docs. t \<in> set (doc_tokens doc))"
  by (simp add: document_frequency_def filter_empty_conv)

lemma built_vocabulary_iff:
  "t \<in> vocabulary (built docs) \<longleftrightarrow> 0 < document_frequency docs t"
  by (simp add: built_vocabulary document_frequency_pos_iff)

lemma tfidf_score_sum:
  "tfidf_score_document self query_terms d =
     sum_list (map (\<lambda>t. tfidf_term (tfidf_idf (total_docs self) (get_doc_freq self t))
                            (find_tf (get_postings self t) d))
                 (filter (\<lambda>t. 0 < get_doc_freq self t \<and> 0 < find_tf (get_postings self t) d)
                    query_terms))"
  by (simp add: tfidf_score_document_def tfidf_loop_sum)

lemma bm25_score_sum:
  assumes "0 \<le> k1" "0 \<le> b" "b \<le> 1"
  shows "bm25_score_document k1 b (built docs) query_terms d =
     Inr (sum_list (map (\<lambda>t. bm25_value k1 b
                                 (bm25_idf (length docs) (document_frequency docs t))
                                 (case doc_lengths (built docs) d of
                                    None \<Rightarrow> avg_doc_length (built docs) | Some l \<Rightarrow> real l)
                                 (avg_doc_length (built docs)) (term_frequency docs t d))
                 (filter (\<lambda>t. 0 < document_frequency docs t \<and> 0 < term_frequency docs t d)
                    query_terms)))"
  unfolding bm25_score_document_def Let_def
  using bm25_loop_sum [OF assms built_doc_len_nonneg, of docs d docs d query_terms 0]
  by simp

lemma bm25_score_avg_zero:
  assumes "avg_doc_length (built docs) = 0"
  shows "bm25_score_document k1 b (built docs) query_terms d = Inr 0"
  unfolding bm25_score_document_def Let_def
  by (rule bm25_loop_no_postings) (rule avg_zero_no_postings [OF assms])

text \<open>
  C3. On a built index, \<open>TFIDFRetrieval.score_document\<close> returns the sum, over the
  query terms whose document frequency and whose term frequency in the document are
  positive, of \<open>ln (1 + tf) * (ln ((N + 1) / (df + 1)) + 1)\<close> with
  \<open>N = total_docs\<close>; query terms outside the vocabulary contribute nothing (they can
  be dropped from the query). Here \<open>N\<close> is the number of documents, \<open>df\<close> the
  number of documents that contain the term, \<open>tf\<close> the number of its occurrences in
  the document, and the vocabulary holds the terms of positive document frequency.
\<close>

theorem tfidf_score_formula:
  "tfidf_score_document (built docs) query_terms doc_id =
     (\<Sum>t \<leftarrow> filter (\<lambda>t. 0 < get_doc_freq (built docs) t
                          \<and> 0 < find_tf (get_postings (built docs) t) doc_id) query_terms.
        ln (1 + real (find_tf (get_postings (built docs) t) doc_id))
        * (ln ((real (total_docs (built docs)) + 1) / (real (get_doc_freq (built docs) t) + 1)) + 1))
   \<and> tfidf_score_document (built docs) query_terms doc_id =
       tfidf_score_document (built docs)
         (filter (\<lambda>t. t \<in> vocabulary (built docs)) query_terms) doc_id
   \<and> total_docs (built docs) = length docs
   \<and> get_doc_freq (built docs) term = document_frequency docs term
   \<and> find_tf (get_postings (built docs) term) doc_id = term_frequency docs term doc_id
   \<and> (term \<in> vocabulary (built docs)) = (0 < document_frequency docs term)"
proof (intro conjI)
  show "tfidf_score_document (built docs) query_terms doc_id =
     (\<Sum>t \<leftarrow> filter (\<lambda>t. 0 < get_doc_freq (built docs) t
                          \<and> 0 < find_tf (get_postings (built docs) t) doc_id) query_terms.
        ln (1 + real (find_tf (get_postings (built docs) t) doc_id))
        * (ln ((real (total_docs (built docs)) + 1) / (real (get_doc_freq (built docs) t) + 1)) + 1))"
    by (simp add: tfidf_score_sum tfidf_term_def tfidf_idf_def)
  have "filter (\<lambda>t. 0 < get_doc_freq (built docs) t
                   \<and> 0 < find_tf (get_postings (built docs) t) doc_id)
          (filter (\<lambda>t. t \<in> vocabulary (built docs)) query_terms)
      = filter (\<lambda>t. 0 < get_doc_freq (built docs) t
                   \<and> 0 < find_tf (get_postings (built docs) t) doc_id) query_terms"
    by (auto simp: built_vocabulary_iff built_df intro: filter_cong)
  then show "tfidf_score_document (built docs) query_terms doc_id =
       tfidf_score_document (built docs)
         (filter (\<lambda>t. t \<in> vocabulary (built docs)) query_terms) doc_id"
    by (simp only: tfidf_score_sum)
  show "total_docs (built docs) = length docs" by (rule built_total_docs)
  show "get_doc_freq (built docs) term = document_frequency docs term" by (rule built_df)
  show "find_tf (get_postings (built docs) term) doc_id = term_frequency docs term doc_id"
    by (rule built_tf)
  show "(term \<in> vocabulary (built docs)) = (0 < document_frequency docs term)"
    by (rule built_vocabulary_iff)
qed

text \<open>
  C4. On an index built from any batch, \<open>BM25Retrieval.score_document\<close> never
  divides by zero: when \<open>avg_doc_length\<close> is 0 (an empty batch, or documents without
  tokens) it returns 0 for every query and document id, whatever the parameters; and
  for parameters \<open>k1 \<ge> 0\<close> and \<open>0 \<le> b \<le> 1\<close> (the defaults among them) it returns a
  score on every built index.
\<close>

theorem bm25_never_divides_by_zero:
  "(avg_doc_length (built docs) = 0 \<longrightarrow>
      bm25_score_document k1 b (built docs) query_terms doc_id = Inr 0)
   \<and> (0 \<le> k1 \<and> 0 \<le> b \<and> b \<le> 1 \<longrightarrow>
      (\<exists>s. bm25_score_document k1 b (built docs) query_terms doc_id = Inr s))"
  using bm25_score_avg_zero [of docs k1 b query_terms doc_id]
    bm25_score_sum [of k1 b docs query_terms doc_id]
  by blast

lemma built_avg_nonneg: "0 \<le> avg_doc_length (built docs)"
  by (simp add: built_avg_doc_length)

lemma sum_list_map_nonneg:
  fixes f :: "'a \<Rightarrow> real"
  assumes "\<And>x. x \<in> set xs \<Longrightarrow> 0 \<le> f x"
  shows "0 \<le> sum_list (map f xs)"
  using assms by (induction xs) simp_all

lemma tfidf_score_nonneg: "0 \<le> tfidf_score_document (built docs) query_terms d"
proof -
  have "0 \<le> tfidf_term (tfidf_idf (total_docs (built docs)) (get_doc_freq (built docs) t)) tf"
    for t tf
  proof -
    have "get_doc_freq (built docs) t \<le> total_docs (built docs)"
      by (simp add: built_df built_total_docs document_frequency_le)
    from tfidf_idf_ge_1 [OF this] show ?thesis
      by (intro tfidf_term_nonneg) simp
  qed
  then show ?thesis
    unfolding tfidf_score_sum by (intro sum_list_map_nonneg)
qed

lemma bm25_default_score_nonneg:
  "\<exists>s. bm25_score_document 1.5 0.75 (built docs) query_terms d = Inr s \<and> 0 \<le> s"
proof -
  let ?dl = "case doc_lengths (built docs) d of
               None \<Rightarrow> avg_doc_length (built docs) | Some l \<Rightarrow> real l"
  let ?f = "\<lambda>t. bm25_value 1.5 0.75 (bm25_idf (length docs) (document_frequency docs t))
                  ?dl (avg_doc_length (built docs)) (term_frequency docs t d)"
  let ?ts = "filter (\<lambda>t. 0 < document_frequency docs t \<and> 0 < term_frequency docs t d) query_terms"
  have eq: "bm25_score_document 1.5 0.75 (built docs) query_terms d = Inr (sum_list (map ?f ?ts))"
    by (rule bm25_score_sum) simp_all
  have "0 \<le> ?f t" if "t \<in> set ?ts" for t
  proof -
    from that have "0 < document_frequency docs t" by simp
    then have avg: "0 < avg_doc_length (built docs)" by (rule df_pos_avg_pos)
    have idf: "0 \<le> bm25_idf (length docs) (document_frequency docs t)"
      by (rule bm25_idf_nonneg) (rule document_frequency_le)
    show ?thesis
      by (rule bm25_value_nonneg [OF idf _ _ _ built_doc_len_nonneg avg]) simp_all
  qed
  then have "0 \<le> sum_list (map ?f ?ts)" by (rule sum_list_map_nonneg)
  with eq show ?thesis by blast
qed

lemma no_match_filter:
  assumes "\<forall>t \<in> set query_terms. term_frequency docs t d = 0"
  shows "filter (\<lambda>t. 0 < document_frequency docs t \<and> 0 < term_frequency docs t d) query_terms = []"
  using assms by (simp add: filter_empty_conv)

text \<open>
  C5. On a built index both \<open>score_document\<close> functions (BM25 with the defaults
  \<open>k1 = 1.5\<close>, \<open>b = 0.75\<close>) return a value that is at least 0, and exactly 0 when
  the document has term frequency 0 for every query term.
\<close>

theorem scores_nonnegative:
  "0 \<le> tfidf_score_document (built docs) query_terms doc_id
   \<and> (\<exists>s. bm25_score_document 1.5 0.75 (built docs) query_terms doc_id = Inr s \<and> 0 \<le> s)
   \<and> ((\<forall>t \<in> set query_terms. term_frequency docs t doc_id = 0) \<longrightarrow>
        tfidf_score_document (built docs) query_terms doc_id = 0
        \<and> bm25_score_document 1.5 0.75 (built docs) query_terms doc_id = Inr 0)"
proof (intro conjI impI)
  show "0 \<le> tfidf_score_document (built docs) query_terms doc_id"
    by (rule tfidf_score_nonneg)
  show "\<exists>s. bm25_score_document 1.5 0.75 (built docs) query_terms doc_id = Inr s \<and> 0 \<le> s"
    by (rule bm25_default_score_nonneg)
next
  assume none: "\<forall>t \<in> set query_terms. term_frequency docs t doc_id = 0"
  show "tfidf_score_document (built docs) query_terms doc_id = 0"
    by (simp add: tfidf_score_sum built_df built_tf no_match_filter [OF none])
  have "bm25_score_document 1.5 0.75 (built docs) query_terms doc_id =
      Inr (sum_list (map (\<lambda>t. bm25_value 1.5 0.75
                                 (bm25_idf (length docs) (document_frequency docs t))
                                 (case doc_lengths (built docs) doc_id of
                                    None \<Rightarrow> avg_doc_length (built docs) | Some l \<Rightarrow> real l)
                                 (avg_doc_length (built docs)) (term_frequency docs t doc_id))
                 (filter (\<lambda>t. 0 < document_frequency docs t \<and> 0 < term_frequency docs t doc_id)
                    query_terms)))"
    by (rule bm25_score_sum) simp_all
  then show "bm25_score_document 1.5 0.75 (built docs) query_terms doc_id = Inr 0"
    by (simp only: no_match_filter [OF none] list.map sum_list.Nil)
qed

theorem scores_nonnegative_witness:
  "term_frequency scenario_a ''cat'' 2 = 0
   \<and> 0 \<le> tfidf_score_document (built scenario_a) [''cat''] 2
   \<and> tfidf_score_document (built scenario_a) [''cat''] 2 = 0
   \<and> bm25_score_document 1.5 0.75 (built scenario_a) [''cat''] 2 = Inr 0"
proof -
  have h: "\<forall>t \<in> set [''cat'']. term_frequency scenario_a t 2 = 0"
    by (simp add: scenario_a_tf)
  show ?thesis
    using h scores_nonnegative [of scenario_a "[''cat'']" 2]
    by (simp add: scenario_a_tf)
qed

text \<open>
  C7. With the index fixed, the contribution of one term is non-decreasing in the term
  frequency: \<open>ln (1 + tf) * idf\<close> for TF-IDF, and
  \<open>idf * tf * (k1 + 1) / (tf + k1 * (1 - b + b * (doc_len / avgdl)))\<close> for BM25 with
  \<open>k1 = 1.5\<close> and \<open>b = 0.75\<close>. The BM25 formula divides by \<open>avgdl\<close>, so the
  index holds at least one token (\<open>avg_doc_length > 0\<close>).
\<close>

theorem contributions_monotone_in_tf:
  assumes "0 < avg_doc_length (built docs)" and "tf \<le> tf'"
  shows "tfidf_term (tfidf_idf (total_docs (built docs)) (get_doc_freq (built docs) term)) tf
           \<le> tfidf_term (tfidf_idf (total_docs (built docs)) (get_doc_freq (built docs) term)) tf'
         \<and> (\<exists>x y.
              bm25_term 1.5 0.75
                (bm25_idf (total_docs (built docs)) (get_doc_freq (built docs) term))
                (case doc_lengths (built docs) doc_id of
                   None \<Rightarrow> avg_doc_length (built docs) | Some l \<Rightarrow> real l)
                (avg_doc_length (built docs)) tf = Inr x
              \<and> bm25_term 1.5 0.75
                  (bm25_idf (total_docs (built docs)) (get_doc_freq (built docs) term))
                  (case doc_lengths (built docs) doc_id of
                     None \<Rightarrow> avg_doc_length (built docs) | Some l \<Rightarrow> real l)
                  (avg_doc_length (built docs)) tf' = Inr y
              \<and> x \<le> y)"
proof -
  let ?N = "total_docs (built docs)"
  let ?df = "get_doc_freq (built docs) term"
  let ?dl = "case doc_lengths (built docs) doc_id of
               None \<Rightarrow> avg_doc_length (built docs) | Some l \<Rightarrow> real l"
  let ?avg = "avg_doc_length (built docs)"
  have le: "?df \<le> ?N"
    by (simp add: built_df built_total_docs document_frequency_le)
  have dl: "0 \<le> ?dl" by (rule built_doc_len_nonneg)
  have "0 \<le> tfidf_idf ?N ?df"
    using tfidf_idf_ge_1 [OF le] by simp
  then have 1: "tfidf_term (tfidf_idf ?N ?df) tf \<le> tfidf_term (tfidf_idf ?N ?df) tf'"
    using assms(2) by (rule tfidf_term_mono)
  have idf: "0 \<le> bm25_idf ?N ?df" using le by (rule bm25_idf_nonneg)
  have "bm25_value 1.5 0.75 (bm25_idf ?N ?df) ?dl ?avg tf
          \<le> bm25_value 1.5 0.75 (bm25_idf ?N ?df) ?dl ?avg tf'"
    by (rule bm25_value_mono [OF idf _ default_length_norm_pos [OF dl assms(1)] assms(2)]) simp
  with bm25_term_default [OF dl assms(1)] 1 show ?thesis
    by blast
qed

theorem contributions_monotone_in_tf_witness:
  "0 < avg_doc_length (built scenario_a) \<and> (1::nat) \<le> 2
   \<and> tfidf_term (tfidf_idf (total_docs (built scenario_a)) (get_doc_freq (built scenario_a) ''cat'')) 1
       \<le> tfidf_term (tfidf_idf (total_docs (built scenario_a)) (get_doc_freq (built scenario_a) ''cat'')) 2
   \<and> (\<exists>x y.
         bm25_term 1.5 0.75
           (bm25_idf (total_docs (built scenario_a)) (get_doc_freq (built scenario_a) ''cat''))
           (case doc_lengths (built scenario_a) 0 of
              None \<Rightarrow> avg_doc_length (built scenario_a) | Some l \<Rightarrow> real l)
           (avg_doc_length (built scenario_a)) 1 = Inr x
         \<and> bm25_term 1.5 0.75
             (bm25_idf (total_docs (built scenario_a)) (get_doc_freq (built scenario_a) ''cat''))
             (case doc_lengths (built scenario_a) 0 of
                None \<Rightarrow> avg_doc_length (built scenario_a) | Some l \<Rightarrow> real l)
             (avg_doc_length (built scenario_a)) 2 = Inr y
         \<and> x \<le> y)"
proof -
  have h: "0 < avg_doc_length (built scenario_a)"
    by (simp add: scenario_a_avg)
  have l: "(1::nat) \<le> 2" by simp
  show ?thesis
    using h l contributions_monotone_in_tf [OF h l, of "''cat''" 0] by blast
qed

theorem bm25_never_divides_by_zero_witness:
  "avg_doc_length (built [text_doc ''an ox'']) = 0
   \<and> bm25_score_document 1.5 0.75 (built [text_doc ''an ox'']) [''anything''] 0 = Inr 0
   \<and> (0::real) \<le> 1.5 \<and> (0::real) \<le> 0.75 \<and> (0.75::real) \<le> 1
   \<and> (\<exists>s. bm25_score_document 1.5 0.75 (built scenario_a) [''cat''] 1 = Inr s)"
proof -
  have t: "map (length \<circ> doc_tokens) [text_doc ''an ox''] = [0]"
    by code_simp
  have h: "avg_doc_length (built [text_doc ''an ox'']) = 0"
    by (simp only: built_avg_doc_length t) simp
  have p: "(0::real) \<le> 1.5 \<and> (0::real) \<le> 0.75 \<and> (0.75::real) \<le> 1" by simp
  show ?thesis
    using h p
      bm25_never_divides_by_zero [of "[text_doc ''an ox'']" "1.5" "0.75" "[''anything'']" 0]
      bm25_never_divides_by_zero [of scenario_a "1.5" "0.75" "[''cat'']" 1]
    by blast
qed

section \<open>Ranking and search\<close>

lemma score_all_positive_scores:
  assumes "\<And>d. d \<in> set ids \<Longrightarrow> \<exists>s. score_document model idx qt d = Inr s"
  shows "score_all model idx qt ids = Inr (positive_scores model idx qt ids)"
  using assms
proof (induction ids)
  case Nil
  then show ?case by (simp add: positive_scores_def)
next
  case (Cons d ids)
  from Cons.prems obtain s where s: "score_document model idx qt d = Inr s"
    by auto
  have "score_all model idx qt ids = Inr (positive_scores model idx qt ids)"
    by (rule Cons.IH) (simp add: Cons.prems)
  with s show ?case by (simp add: positive_scores_def)
qed

lemma positive_scores_set:
  "set (positive_scores model idx qt ids) =
     {(d, s). d \<in> set ids \<and> score_document model idx qt d = Inr s \<and> 0 < s}"
  by (induction ids) (auto simp: positive_scores_def split: sum.splits if_splits)

lemma positive_scores_fst_ge:
  "x \<in> set (positive_scores model idx qt [m ..< n]) \<Longrightarrow> m \<le> fst x \<and> fst x < n"
  by (auto simp: positive_scores_set)

lemma positive_scores_upt_Cons:
  "m < n \<Longrightarrow> positive_scores model idx qt [m ..< n] =
     (case score_document model idx qt m of
        Inl e \<Rightarrow> [] | Inr s \<Rightarrow> if 0 < s then [(m, s)] else [])
     @ positive_scores model idx qt [Suc m ..< n]"
  by (simp add: positive_scores_def upt_conv_Cons)

lemma positive_scores_ascending:
  "sorted_wrt (\<lambda>x y. fst x < fst y) (positive_scores model idx qt [m ..< n])"
proof (induction "n - m" arbitrary: m)
  case 0
  then show ?case by (simp add: positive_scores_def)
next
  case (Suc k)
  then have mn: "m < n" and k: "k = n - Suc m" by simp_all
  have later: "\<forall>y \<in> set (positive_scores model idx qt [Suc m ..< n]). m < fst y"
  proof
    fix y assume "y \<in> set (positive_scores model idx qt [Suc m ..< n])"
    then have "Suc m \<le> fst y" by (simp add: positive_scores_fst_ge)
    then show "m < fst y" by simp
  qed
  show ?case
    using Suc.hyps(1) [OF k] later
    by (simp add: positive_scores_upt_Cons [OF mn] sorted_wrt_append split: sum.splits)
qed

text \<open>The stable descending sort.\<close>

lemma insert_desc_set: "set (insert_desc x ys) = insert x (set ys)"
  by (induction ys) auto

lemma insert_desc_length: "length (insert_desc x ys) = Suc (length ys)"
  by (induction ys) auto

lemma sort_desc_Cons: "sort_desc (x # xs) = insert_desc x (sort_desc xs)"
  by (simp add: sort_desc_def)

lemma sort_desc_set: "set (sort_desc xs) = set xs"
  by (induction xs) (simp_all add: sort_desc_def insert_desc_set)

lemma sort_desc_length: "length (sort_desc xs) = length xs"
  by (induction xs) (simp_all add: sort_desc_def insert_desc_length)

lemma rank_before_snd: "rank_before x y \<Longrightarrow> snd y \<le> snd x"
  by (auto simp: rank_before_def)

lemma insert_desc_ranked:
  assumes "sorted_wrt rank_before ys" "\<forall>y \<in> set ys. fst x < fst y"
  shows "sorted_wrt rank_before (insert_desc x ys)"
  using assms
proof (induction ys)
  case Nil
  then show ?case by simp
next
  case (Cons y ys)
  show ?case
  proof (cases "snd y \<le> snd x")
    case True
    have "rank_before x z" if "z \<in> set (y # ys)" for z
    proof -
      have "snd z \<le> snd y"
        using that Cons.prems(1) by (auto dest: rank_before_snd)
      with True have "snd z \<le> snd x" by simp
      moreover have "fst x < fst z" using that Cons.prems(2) by blast
      ultimately show ?thesis by (auto simp: rank_before_def)
    qed
    with True Cons.prems(1) show ?thesis by simp
  next
    case False
    then have "rank_before y x" by (simp add: rank_before_def)
    moreover have "sorted_wrt rank_before (insert_desc x ys)"
      using Cons.prems by (intro Cons.IH) simp_all
    ultimately show ?thesis
      using False Cons.prems(1) by (simp add: insert_desc_set)
  qed
qed

lemma sort_desc_ranked:
  assumes "sorted_wrt (\<lambda>x y. fst x < fst y) xs"
  shows "sorted_wrt rank_before (sort_desc xs)"
  using assms
proof (induction xs)
  case Nil
  then show ?case by (simp add: sort_desc_def)
next
  case (Cons x xs)
  then have "sorted_wrt rank_before (sort_desc xs)" by simp
  moreover have "\<forall>y \<in> set (sort_desc xs). fst x < fst y"
    using Cons.prems by (simp add: sort_desc_set)
  ultimately show ?case
    unfolding sort_desc_Cons by (rule insert_desc_ranked)
qed

lemma insert_desc_distinct_fst:
  "distinct (map fst (insert_desc x ys)) \<longleftrightarrow> fst x \<notin> fst ` set ys \<and> distinct (map fst ys)"
  by (induction ys) (auto simp: insert_desc_set)

lemma sort_desc_distinct_fst:
  assumes "sorted_wrt (\<lambda>x y. fst x < fst y) xs"
  shows "distinct (map fst (sort_desc xs))"
  using assms
proof (induction xs)
  case Nil
  then show ?case by (simp add: sort_desc_def)
next
  case (Cons x xs)
  then have "distinct (map fst (sort_desc xs))" by simp
  moreover have "fst x \<notin> fst ` set (sort_desc xs)"
    using Cons.prems by (auto simp: sort_desc_set)
  ultimately show ?case
    by (simp only: sort_desc_Cons insert_desc_distinct_fst) simp
qed

lemma default_models_bm25: "default_models ''bm25'' = Some (BM25Retrieval 1.5 0.75)"
  by (simp add: default_models_def)

lemma default_models_tfidf: "default_models ''tfidf'' = Some TFIDFRetrieval"
  by (simp add: default_models_def)

lemma default_models_other:
  "method \<noteq> ''tfidf'' \<Longrightarrow> method \<noteq> ''bm25'' \<Longrightarrow> default_models method = None"
  by (simp add: default_models_def)

lemma selected_model_cases:
  "selected_model method = (if method = ''tfidf'' then TFIDFRetrieval else BM25Retrieval 1.5 0.75)"
  by (simp add: selected_model_def default_models_def)

lemma selected_model_scores:
  "\<exists>s. score_document (selected_model method) (built docs) qt d = Inr s"
proof (cases "method = ''tfidf''")
  case True
  then show ?thesis by (simp add: selected_model_cases)
next
  case False
  have "\<exists>s. bm25_score_document 1.5 0.75 (built docs) qt d = Inr s"
    using bm25_default_score_nonneg [of docs qt d] by blast
  with False show ?thesis by (simp add: selected_model_cases)
qed

lemma slice_to_set: "set (slice_to xs k) \<subseteq> set xs"
  by (auto simp: slice_to_def dest: in_set_takeD)

lemma slice_to_pos: "0 < k \<Longrightarrow> slice_to xs k = take (nat k) xs"
  by (simp add: slice_to_def)

lemma with_metadata_built:
  assumes "\<And>x. x \<in> set ranked \<Longrightarrow> fst x < length docs"
  shows "with_metadata (built docs) ranked =
           Inr (map (\<lambda>x. (fst x, snd x, meta_of (docs ! fst x))) ranked)"
  using assms
proof (induction ranked)
  case Nil
  then show ?case by simp
next
  case (Cons x ranked)
  obtain d s where x: "x = (d, s)" by (cases x)
  have "d < length docs" using Cons.prems [of x] x by simp
  moreover have "with_metadata (built docs) ranked =
           Inr (map (\<lambda>x. (fst x, snd x, meta_of (docs ! fst x))) ranked)"
    by (rule Cons.IH) (simp add: Cons.prems)
  ultimately show ?case by (simp add: x built_doc_metadata)
qed

lemma result_entries_built:
  assumes "\<And>x. x \<in> set ranked \<Longrightarrow> fst x < length docs"
  shows "result_entries (built docs) ranked = Inr (map (entry_of docs) ranked)"
  using assms
proof (induction ranked)
  case Nil
  then show ?case by simp
next
  case (Cons x ranked)
  obtain d s where x: "x = (d, s)" by (cases x)
  have "d < length docs" using Cons.prems [of x] x by simp
  moreover have "result_entries (built docs) ranked = Inr (map (entry_of docs) ranked)"
    by (rule Cons.IH) (simp add: Cons.prems)
  ultimately show ?case by (simp add: x built_doc_metadata entry_of_def meta_of_def)
qed

lemma ranked_results_ids:
  assumes "x \<in> set (ranked_results docs model qt top_k)"
  shows "fst x < length docs"
proof -
  from assms have "x \<in> set (positive_scores model (built docs) qt [0 ..< length docs])"
    using slice_to_set [of "sort_desc (positive_scores model (built docs) qt [0 ..< length docs])" top_k]
    by (auto simp: ranked_results_def sort_desc_set)
  then show ?thesis by (simp add: positive_scores_fst_ge)
qed

lemma search_indexed:
  "search (indexed_system docs tr hist) query method top_k query_lang clk =
     Inr (map (\<lambda>x. (fst x, snd x, meta_of (docs ! fst x)))
            (ranked_results docs (selected_model method)
               (tokenize (working_query (indexed_system docs tr hist) query query_lang)) top_k),
          (indexed_system docs tr hist)\<lparr>search_history := hist @
             [history_record docs query
                (working_query (indexed_system docs tr hist) query query_lang) method query_lang clk
                (ranked_results docs (selected_model method)
                   (tokenize (working_query (indexed_system docs tr hist) query query_lang)) top_k)]\<rparr>)"
proof -
  let ?S = "indexed_system docs tr hist"
  let ?wq = "working_query ?S query query_lang"
  let ?model = "selected_model method"
  let ?ranked = "ranked_results docs ?model (tokenize ?wq) top_k"
  have fields: "retrieval_models ?S = default_models" "clir_index ?S = built docs"
    "documents ?S = docs" "search_history ?S = hist"
    by (simp_all add: indexed_system_def)
  have sc: "score_all ?model (built docs) (tokenize ?wq) [0 ..< length docs] =
      Inr (positive_scores ?model (built docs) (tokenize ?wq) [0 ..< length docs])"
    by (rule score_all_positive_scores) (rule selected_model_scores)
  have wm: "with_metadata (built docs) ?ranked =
      Inr (map (\<lambda>x. (fst x, snd x, meta_of (docs ! fst x))) ?ranked)"
    by (rule with_metadata_built) (rule ranked_results_ids)
  have re: "result_entries (built docs) ?ranked = Inr (map (entry_of docs) ?ranked)"
    by (rule result_entries_built) (rule ranked_results_ids)
  have model: "(case default_models method of None \<Rightarrow> BM25Retrieval 1.5 0.75 | Some m \<Rightarrow> m) = ?model"
    by (simp add: selected_model_def)
  have wq: "(if query_lang \<noteq> ''en'' then translate_query ?S query query_lang ''en'' else query) = ?wq"
    by (simp add: working_query_def)
  have rk: "slice_to (sort_desc (positive_scores ?model (built docs) (tokenize ?wq) [0 ..< length docs]))
      top_k = ?ranked"
    by (simp add: ranked_results_def)
  show ?thesis
    unfolding search_def Let_def fields wq default_models_bm25 option.case model sc sum.case rk
      re wm history_record_def
    by (rule refl)
qed

lemma ranked_results_full:
  assumes "0 < top_k"
  shows "ranked_results docs model qt top_k =
     take (nat top_k) (sort_desc (positive_scores model (built docs) qt [0 ..< length docs]))"
  using assms by (simp add: ranked_results_def slice_to_pos)

text \<open>
  C1. On an indexed system, for every query, for \<open>method\<close> in \<open>{tfidf, bm25}\<close> and
  every \<open>top_k > 0\<close>, \<open>search\<close> returns: its results are the first \<open>top_k\<close>
  entries of a list \<open>full\<close> that holds exactly the document ids below
  \<open>total_docs\<close> whose score under the model is strictly positive, each once, sorted
  by descending score with ties in ascending document id; so there are at most
  \<open>top_k\<close> results.
\<close>

theorem search_ranking:
  assumes "0 < top_k" and "method = ''tfidf'' \<or> method = ''bm25''"
  shows "\<exists>res sys' full.
      search (indexed_system docs tr hist) query method top_k query_lang clk = Inr (res, sys')
      \<and> map (\<lambda>(d, s, m). (d, s)) res = take (nat top_k) full
      \<and> set full =
          {(d, s). d < total_docs (built docs)
             \<and> score_document
                 (if method = ''tfidf'' then TFIDFRetrieval else BM25Retrieval 1.5 0.75)
                 (built docs)
                 (tokenize (working_query (indexed_system docs tr hist) query query_lang)) d = Inr s
             \<and> 0 < s}
      \<and> sorted_wrt rank_before full
      \<and> distinct (map fst full)
      \<and> length res \<le> nat top_k"
proof -
  let ?S = "indexed_system docs tr hist"
  let ?qt = "tokenize (working_query ?S query query_lang)"
  let ?model = "selected_model method"
  let ?full = "sort_desc (positive_scores ?model (built docs) ?qt [0 ..< length docs])"
  let ?ranked = "ranked_results docs ?model ?qt top_k"
  let ?res = "map (\<lambda>x. (fst x, snd x, meta_of (docs ! fst x))) ?ranked"
  have rk: "?ranked = take (nat top_k) ?full"
    using assms(1) by (rule ranked_results_full)
  have 1: "map (\<lambda>(d, s, m). (d, s)) ?res = take (nat top_k) ?full"
    by (simp add: rk comp_def)
  have 2: "set ?full =
          {(d, s). d < total_docs (built docs)
             \<and> score_document
                 (if method = ''tfidf'' then TFIDFRetrieval else BM25Retrieval 1.5 0.75)
                 (built docs) ?qt d = Inr s
             \<and> 0 < s}"
    by (simp add: sort_desc_set positive_scores_set built_total_docs selected_model_cases)
  have 3: "sorted_wrt rank_before ?full"
    by (rule sort_desc_ranked) (rule positive_scores_ascending)
  have 4: "distinct (map fst ?full)"
    by (rule sort_desc_distinct_fst) (rule positive_scores_ascending)
  have 5: "length ?res \<le> nat top_k"
    by (simp add: rk)
  from search_indexed [of docs tr hist query "method" top_k query_lang clk] 1 2 3 4 5
  show ?thesis by blast
qed

lemma search_indexed_scored:
  "\<exists>res sys' scores.
      search (indexed_system docs tr hist) query method top_k query_lang clk = Inr (res, sys')
      \<and> score_all (selected_model method) (built docs)
            (tokenize (working_query (indexed_system docs tr hist) query query_lang))
            [0 ..< length docs] = Inr scores
      \<and> scores = positive_scores (selected_model method) (built docs)
            (tokenize (working_query (indexed_system docs tr hist) query query_lang))
            [0 ..< length docs]
      \<and> res = map (\<lambda>x. (fst x, snd x, meta_of (docs ! fst x))) (slice_to (sort_desc scores) top_k)
      \<and> search_history sys' = hist @
            [history_record docs query
               (working_query (indexed_system docs tr hist) query query_lang) method query_lang clk
               (slice_to (sort_desc scores) top_k)]"
proof -
  let ?S = "indexed_system docs tr hist"
  let ?qt = "tokenize (working_query ?S query query_lang)"
  let ?model = "selected_model method"
  have sc: "score_all ?model (built docs) ?qt [0 ..< length docs] =
      Inr (positive_scores ?model (built docs) ?qt [0 ..< length docs])"
    by (rule score_all_positive_scores) (rule selected_model_scores)
  show ?thesis
    by (simp add: search_indexed sc ranked_results_def)
qed

text \<open>
  C10. A \<open>search\<close> with a method name that is neither \<open>tfidf\<close> nor \<open>bm25\<close> does
  not raise. It scores the documents \<open>0 .. len(documents) - 1\<close> with the BM25 model
  of the default parameters on the tokens of the working query, keeps the positive
  scores, sorts them and returns the slice \<open>[:top_k]\<close> with the metadata; this is the
  result list of the same call with \<open>method = 'bm25'\<close>. The record it appends to the
  history stores the caller's method name and these results.
\<close>

theorem unknown_method_uses_bm25:
  assumes "method \<noteq> ''tfidf''" and "method \<noteq> ''bm25''"
  shows "\<exists>res sys' sys'' scores.
      search (indexed_system docs tr hist) query method top_k query_lang clk = Inr (res, sys')
      \<and> score_all (BM25Retrieval 1.5 0.75) (built docs)
            (tokenize (working_query (indexed_system docs tr hist) query query_lang))
            [0 ..< length docs] = Inr scores
      \<and> scores = positive_scores (BM25Retrieval 1.5 0.75) (built docs)
            (tokenize (working_query (indexed_system docs tr hist) query query_lang))
            [0 ..< length docs]
      \<and> res = map (\<lambda>x. (fst x, snd x, meta_of (docs ! fst x))) (slice_to (sort_desc scores) top_k)
      \<and> search (indexed_system docs tr hist) query ''bm25'' top_k query_lang clk = Inr (res, sys'')
      \<and> search_history sys' = hist @ [last (search_history sys')]
      \<and> rec_method (last (search_history sys')) = method
      \<and> results (last (search_history sys')) = map (entry_of docs) (slice_to (sort_desc scores) top_k)"
proof -
  have m: "selected_model method = BM25Retrieval 1.5 0.75"
    using assms by (simp add: selected_model_cases)
  have b: "selected_model ''bm25'' = BM25Retrieval 1.5 0.75"
    by (simp add: selected_model_cases)
  from search_indexed_scored [of docs tr hist query "method" top_k query_lang clk]
  obtain res sys' scores where
    1: "search (indexed_system docs tr hist) query method top_k query_lang clk = Inr (res, sys')"
    and 2: "score_all (BM25Retrieval 1.5 0.75) (built docs)
            (tokenize (working_query (indexed_system docs tr hist) query query_lang))
            [0 ..< length docs] = Inr scores"
    and 3: "scores = positive_scores (BM25Retrieval 1.5 0.75) (built docs)
            (tokenize (working_query (indexed_system docs tr hist) query query_lang))
            [0 ..< length docs]"
    and 4: "res = map (\<lambda>x. (fst x, snd x, meta_of (docs ! fst x))) (slice_to (sort_desc scores) top_k)"
    and 5: "search_history sys' = hist @
            [history_record docs query
               (working_query (indexed_system docs tr hist) query query_lang) method query_lang clk
               (slice_to (sort_desc scores) top_k)]"
    unfolding m by blast
  from search_indexed_scored [of docs tr hist query "''bm25''" top_k query_lang clk]
  obtain sys'' where
    6: "search (indexed_system docs tr hist) query ''bm25'' top_k query_lang clk = Inr (res, sys'')"
    unfolding b using 3 4 by blast
  have 7: "search_history sys' = hist @ [last (search_history sys')]"
    and 8: "rec_method (last (search_history sys')) = method"
    and 9: "results (last (search_history sys')) = map (entry_of docs) (slice_to (sort_desc scores) top_k)"
    by (simp_all add: 5 history_record_def)
  from 1 2 3 4 6 7 8 9 show ?thesis by blast
qed

text \<open>
  C9. When the query language is not \<open>en\<close> and no translator is configured, or the
  translation call raises, \<open>search\<close> does not fail: \<open>translate_query\<close> returns the
  original query, the documents are scored on the tokens of the original query text by
  the selected model, and the positive scores, sorted and cut to \<open>[:top_k]\<close>, are
  returned with the metadata, as for the same call with \<open>query_lang = 'en'\<close>. The
  record appended to the history has the original query, the query language as given,
  these results and no translated query.
\<close>

theorem translation_fallback:
  assumes "query_lang \<noteq> ''en''"
    and "tr = None \<or> (\<exists>f. tr = Some f \<and> f query query_lang ''en'' = None)"
  shows "\<exists>res sys' sys'' scores.
      search (indexed_system docs tr hist) query method top_k query_lang clk = Inr (res, sys')
      \<and> translate_query (indexed_system docs tr hist) query query_lang ''en'' = query
      \<and> score_all (if method = ''tfidf'' then TFIDFRetrieval else BM25Retrieval 1.5 0.75)
            (built docs) (tokenize query) [0 ..< length docs] = Inr scores
      \<and> scores = positive_scores
            (if method = ''tfidf'' then TFIDFRetrieval else BM25Retrieval 1.5 0.75)
            (built docs) (tokenize query) [0 ..< length docs]
      \<and> res = map (\<lambda>x. (fst x, snd x, meta_of (docs ! fst x))) (slice_to (sort_desc scores) top_k)
      \<and> search (indexed_system docs tr hist) query method top_k ''en'' clk = Inr (res, sys'')
      \<and> search_history sys' = hist @ [last (search_history sys')]
      \<and> rec_query (last (search_history sys')) = query
      \<and> translated_query (last (search_history sys')) = None
      \<and> query_language (last (search_history sys')) = query_lang
      \<and> results (last (search_history sys')) = map (entry_of docs) (slice_to (sort_desc scores) top_k)"
proof -
  let ?S = "indexed_system docs tr hist"
  have t: "translate_query ?S query query_lang ''en'' = query"
    using assms(2) by (auto simp: translate_query_def indexed_system_def)
  then have w: "working_query ?S query query_lang = query"
    by (simp add: working_query_def)
  have e: "working_query ?S query ''en'' = query"
    by (simp add: working_query_def)
  from search_indexed_scored [of docs tr hist query "method" top_k query_lang clk]
  obtain res sys' scores where
    1: "search ?S query method top_k query_lang clk = Inr (res, sys')"
    and 2: "score_all (if method = ''tfidf'' then TFIDFRetrieval else BM25Retrieval 1.5 0.75)
            (built docs) (tokenize query) [0 ..< length docs] = Inr scores"
    and 3: "scores = positive_scores
            (if method = ''tfidf'' then TFIDFRetrieval else BM25Retrieval 1.5 0.75)
            (built docs) (tokenize query) [0 ..< length docs]"
    and 4: "res = map (\<lambda>x. (fst x, snd x, meta_of (docs ! fst x))) (slice_to (sort_desc scores) top_k)"
    and 5: "search_history sys' = hist @
            [history_record docs query query method query_lang clk
               (slice_to (sort_desc scores) top_k)]"
    unfolding w selected_model_cases by blast
  from search_indexed_scored [of docs tr hist query "method" top_k "''en''" clk]
  obtain sys'' where
    6: "search ?S query method top_k ''en'' clk = Inr (res, sys'')"
    unfolding e selected_model_cases using 3 4 by blast
  have 7: "search_history sys' = hist @ [last (search_history sys')]"
    and 8: "rec_query (last (search_history sys')) = query"
    and 9: "translated_query (last (search_history sys')) = None"
    and 10: "query_language (last (search_history sys')) = query_lang"
    and 11: "results (last (search_history sys')) = map (entry_of docs) (slice_to (sort_desc scores) top_k)"
    by (simp_all add: 5 history_record_def)
  from 1 t 2 3 4 6 7 8 9 10 11 show ?thesis by blast
qed

subsection \<open>Scenario A\<close>

lemma tokenize_cat: "tokenize ''cat'' = [''cat'']"
  by code_simp

lemma scenario_a_idf_pos: "0 < bm25_idf 3 2"
proof -
  have "(1::real) < (3 - 2 + 0.5) / (2 + 0.5) + 1" by simp
  then have "0 < ln ((3 - 2 + 0.5) / (2 + 0.5) + 1 :: real)" by (rule ln_gt_zero)
  then show ?thesis by (simp add: bm25_idf_def)
qed

lemma scenario_a_score:
  "bm25_score_document 1.5 0.75 (built scenario_a) [''cat''] d =
     Inr (if term_frequency scenario_a ''cat'' d = 0 then 0
          else bm25_value 1.5 0.75 (bm25_idf 3 2)
                 (case doc_lengths (built scenario_a) d of
                    None \<Rightarrow> avg_doc_length (built scenario_a) | Some l \<Rightarrow> real l)
                 (8 / 3) (term_frequency scenario_a ''cat'' d))"
proof -
  have "bm25_score_document 1.5 0.75 (built scenario_a) [''cat''] d =
     Inr (sum_list (map (\<lambda>t. bm25_value 1.5 0.75
                                 (bm25_idf (length scenario_a) (document_frequency scenario_a t))
                                 (case doc_lengths (built scenario_a) d of
                                    None \<Rightarrow> avg_doc_length (built scenario_a) | Some l \<Rightarrow> real l)
                                 (avg_doc_length (built scenario_a)) (term_frequency scenario_a t d))
                 (filter (\<lambda>t. 0 < document_frequency scenario_a t \<and> 0 < term_frequency scenario_a t d)
                    [''cat''])))"
    by (rule bm25_score_sum) simp_all
  then show ?thesis
    by (simp add: scenario_a_df scenario_a_length scenario_a_avg)
qed

lemma scenario_a_score_0:
  "bm25_score_document 1.5 0.75 (built scenario_a) [''cat''] 0 = Inr (bm25_idf 3 2 * (80 / 71))"
  unfolding scenario_a_score scenario_a_tf scenario_a_doc_lengths
  by (simp add: bm25_value_def)

lemma scenario_a_score_1:
  "bm25_score_document 1.5 0.75 (built scenario_a) [''cat''] 1 = Inr (bm25_idf 3 2 * (320 / 233))"
  unfolding scenario_a_score scenario_a_tf scenario_a_doc_lengths
  by (simp add: bm25_value_def)

lemma scenario_a_score_2:
  "bm25_score_document 1.5 0.75 (built scenario_a) [''cat''] 2 = Inr 0"
  unfolding scenario_a_score scenario_a_tf
  by simp

lemma scenario_a_order:
  "0 < bm25_idf 3 2 * (80 / 71)" "bm25_idf 3 2 * (80 / 71) < bm25_idf 3 2 * (320 / 233)"
  using scenario_a_idf_pos by simp_all

lemma upt_3: "[0 ..< 3] = [0, 1, 2]"
  by (simp add: upt_rec numeral_3_eq_3)

lemma scenario_a_positive_scores:
  "positive_scores (BM25Retrieval 1.5 0.75) (built scenario_a) [''cat''] [0 ..< length scenario_a] =
     [(0, bm25_idf 3 2 * (80 / 71)), (1, bm25_idf 3 2 * (320 / 233))]"
proof -
  have pos: "0 < bm25_idf 3 2 * (320 / 233)"
    using scenario_a_idf_pos by simp
  show ?thesis
    unfolding positive_scores_def scenario_a_length upt_3 list.map score_document.simps
      scenario_a_score_0 scenario_a_score_1 scenario_a_score_2 sum.case
    using scenario_a_order(1) pos by simp
qed

lemma scenario_a_sorted:
  "sort_desc [(0, bm25_idf 3 2 * (80 / 71)), (1, bm25_idf 3 2 * (320 / 233))] =
     [(1, bm25_idf 3 2 * (320 / 233)), (0, bm25_idf 3 2 * (80 / 71))]"
  using scenario_a_order(2) by (simp add: sort_desc_def)

lemma scenario_a_ranked:
  "ranked_results scenario_a (selected_model ''bm25'') [''cat''] 10 =
     [(1, bm25_idf 3 2 * (320 / 233)), (0, bm25_idf 3 2 * (80 / 71))]"
proof -
  have m: "selected_model ''bm25'' = BM25Retrieval 1.5 0.75"
    by (simp add: selected_model_cases)
  show ?thesis
    unfolding ranked_results_def m scenario_a_positive_scores scenario_a_sorted
    by (simp add: slice_to_def)
qed

lemma scenario_a_excludes_2:
  "\<exists>res sys'.
     search (indexed_system scenario_a tr hist) ''cat'' ''bm25'' k ''en'' clk = Inr (res, sys')
     \<and> 2 \<notin> fst ` set res"
proof -
  let ?ranked = "ranked_results scenario_a (selected_model ''bm25'')
      (tokenize (working_query (indexed_system scenario_a tr hist) ''cat'' ''en'')) k"
  have m: "selected_model ''bm25'' = BM25Retrieval 1.5 0.75"
    by (simp add: selected_model_cases)
  have wq: "tokenize (working_query (indexed_system scenario_a tr hist) ''cat'' ''en'') = [''cat'']"
    by (simp add: working_query_def tokenize_cat)
  have "set ?ranked \<subseteq> set [(0, bm25_idf 3 2 * (80 / 71)), (1, bm25_idf 3 2 * (320 / 233))]"
    unfolding ranked_results_def wq m
    using slice_to_set [of "sort_desc (positive_scores (BM25Retrieval 1.5 0.75) (built scenario_a)
        [''cat''] [0 ..< length scenario_a])" k]
    by (simp only: sort_desc_set scenario_a_positive_scores)
  then have "2 \<notin> fst ` set ?ranked" by auto
  then have "2 \<notin> fst ` set (map (\<lambda>x. (fst x, snd x, meta_of (scenario_a ! fst x))) ?ranked)"
    by (simp add: image_image)
  with search_indexed [of scenario_a tr hist "''cat''" "''bm25''" k "''en''" clk]
  show ?thesis by blast
qed

text \<open>
  C8. Scenario A: on the corpus "cat dog", "cat cat mouse", "dog mouse mouse" (ids 0, 1,
  2) and the query "cat", BM25 with \<open>k1 = 1.5\<close> and \<open>b = 0.75\<close> gives document 1
  (\<open>tf = 2\<close>) a strictly higher score than document 0 (\<open>tf = 1\<close>), and document 2
  the score 0; the search with \<open>top_k = 10\<close> returns the documents 1 and 0 in this
  order, and for no \<open>top_k\<close> is document 2 among the results.
\<close>

theorem scenario_a_bm25_ranking:
  "\<exists>s0 s1 res sys'.
     term_frequency scenario_a ''cat'' 0 = 1
     \<and> term_frequency scenario_a ''cat'' 1 = 2
     \<and> term_frequency scenario_a ''cat'' 2 = 0
     \<and> bm25_score_document 1.5 0.75 (built scenario_a) (tokenize ''cat'') 0 = Inr s0
     \<and> bm25_score_document 1.5 0.75 (built scenario_a) (tokenize ''cat'') 1 = Inr s1
     \<and> s0 < s1
     \<and> bm25_score_document 1.5 0.75 (built scenario_a) (tokenize ''cat'') 2 = Inr 0
     \<and> search (indexed_system scenario_a tr hist) ''cat'' ''bm25'' 10 ''en'' clk = Inr (res, sys')
     \<and> map fst res = [1, 0]
     \<and> (\<forall>k. \<exists>res sys'.
           search (indexed_system scenario_a tr hist) ''cat'' ''bm25'' k ''en'' clk = Inr (res, sys')
           \<and> 2 \<notin> fst ` set res)"
proof -
  let ?ranked = "[(1, bm25_idf 3 2 * (320 / 233)), (0, bm25_idf 3 2 * (80 / 71))]"
  have wq: "working_query (indexed_system scenario_a tr hist) ''cat'' ''en'' = ''cat''"
    by (simp add: working_query_def)
  have srch: "search (indexed_system scenario_a tr hist) ''cat'' ''bm25'' 10 ''en'' clk =
      Inr (map (\<lambda>x. (fst x, snd x, meta_of (scenario_a ! fst x))) ?ranked,
           (indexed_system scenario_a tr hist)\<lparr>search_history := hist @
             [history_record scenario_a ''cat'' ''cat'' ''bm25'' ''en'' clk ?ranked]\<rparr>)"
    by (simp only: search_indexed wq tokenize_cat scenario_a_ranked)
  have ids: "map fst (map (\<lambda>x. (fst x, snd x, meta_of (scenario_a ! fst x))) ?ranked) = [1, 0]"
    by simp
  have ex: "\<forall>k. \<exists>res sys'.
      search (indexed_system scenario_a tr hist) ''cat'' ''bm25'' k ''en'' clk = Inr (res, sys')
      \<and> 2 \<notin> fst ` set res"
    using scenario_a_excludes_2 by blast
  show ?thesis
    unfolding tokenize_cat
    by (intro exI conjI)
       (rule scenario_a_tf scenario_a_score_0 scenario_a_score_1 scenario_a_score_2
          scenario_a_order(2) srch ids ex)+
qed

theorem search_ranking_witness:
  "(0::int) < 10 \<and> (''bm25'' = ''tfidf'' \<or> ''bm25'' = ''bm25'')
   \<and> (\<exists>res sys' full.
      search (indexed_system scenario_a None []) ''cat'' ''bm25'' 10 ''en'' sample_clock
        = Inr (res, sys')
      \<and> map (\<lambda>(d, s, m). (d, s)) res = take (nat 10) full
      \<and> set full =
          {(d, s). d < total_docs (built scenario_a)
             \<and> score_document
                 (if ''bm25'' = ''tfidf'' then TFIDFRetrieval else BM25Retrieval 1.5 0.75)
                 (built scenario_a)
                 (tokenize (working_query (indexed_system scenario_a None []) ''cat'' ''en'')) d
                 = Inr s
             \<and> 0 < s}
      \<and> sorted_wrt rank_before full
      \<and> distinct (map fst full)
      \<and> length res \<le> nat 10)"
proof -
  have h1: "(0::int) < 10" by simp
  have h2: "''bm25'' = ''tfidf'' \<or> ''bm25'' = ''bm25''" by simp
  show ?thesis
    using h1 h2
      search_ranking [OF h1 h2, of scenario_a None "[]" "''cat''" "''en''" sample_clock]
    by blast
qed

theorem unknown_method_uses_bm25_witness:
  "''cosine'' \<noteq> ''tfidf'' \<and> ''cosine'' \<noteq> ''bm25''
   \<and> (\<exists>res sys' sys'' scores.
      search (indexed_system scenario_a None []) ''cat'' ''cosine'' 10 ''en'' sample_clock
        = Inr (res, sys')
      \<and> score_all (BM25Retrieval 1.5 0.75) (built scenario_a)
            (tokenize (working_query (indexed_system scenario_a None []) ''cat'' ''en''))
            [0 ..< length scenario_a] = Inr scores
      \<and> scores = positive_scores (BM25Retrieval 1.5 0.75) (built scenario_a)
            (tokenize (working_query (indexed_system scenario_a None []) ''cat'' ''en''))
            [0 ..< length scenario_a]
      \<and> res = map (\<lambda>x. (fst x, snd x, meta_of (scenario_a ! fst x)))
                 (slice_to (sort_desc scores) 10)
      \<and> search (indexed_system scenario_a None []) ''cat'' ''bm25'' 10 ''en'' sample_clock
        = Inr (res, sys'')
      \<and> search_history sys' = [] @ [last (search_history sys')]
      \<and> rec_method (last (search_history sys')) = ''cosine''
      \<and> results (last (search_history sys')) =
          map (entry_of scenario_a) (slice_to (sort_desc scores) 10))"
proof -
  have h1: "''cosine'' \<noteq> ''tfidf''" by simp
  have h2: "''cosine'' \<noteq> ''bm25''" by simp
  show ?thesis
    by (intro conjI h1 h2 unknown_method_uses_bm25 [OF h1 h2])
qed

theorem translation_fallback_witness:
  "''bn'' \<noteq> ''en''
   \<and> (\<exists>res sys' sys'' scores.
      search (indexed_system scenario_a None []) ''cat'' ''bm25'' 10 ''bn'' sample_clock
        = Inr (res, sys')
      \<and> translate_query (indexed_system scenario_a None []) ''cat'' ''bn'' ''en'' = ''cat''
      \<and> score_all (if ''bm25'' = ''tfidf'' then TFIDFRetrieval else BM25Retrieval 1.5 0.75)
            (built scenario_a) (tokenize ''cat'') [0 ..< length scenario_a] = Inr scores
      \<and> scores = positive_scores
            (if ''bm25'' = ''tfidf'' then TFIDFRetrieval else BM25Retrieval 1.5 0.75)
            (built scenario_a) (tokenize ''cat'') [0 ..< length scenario_a]
      \<and> res = map (\<lambda>x. (fst x, snd x, meta_of (scenario_a ! fst x)))
                 (slice_to (sort_desc scores) 10)
      \<and> search (indexed_system scenario_a None []) ''cat'' ''bm25'' 10 ''en'' sample_clock
        = Inr (res, sys'')
      \<and> search_history sys' = [] @ [last (search_history sys')]
      \<and> rec_query (last (search_history sys')) = ''cat''
      \<and> translated_query (last (search_history sys')) = None
      \<and> query_language (last (search_history sys')) = ''bn''
      \<and> results (last (search_history sys')) =
          map (entry_of scenario_a) (slice_to (sort_desc scores) 10))
   \<and> (\<exists>res sys' sys'' scores.
      search (indexed_system scenario_a (Some (\<lambda>q s t. None)) []) ''cat'' ''bm25'' 10 ''bn''
        sample_clock = Inr (res, sys')
      \<and> translate_query (indexed_system scenario_a (Some (\<lambda>q s t. None)) []) ''cat'' ''bn'' ''en''
          = ''cat''
      \<and> score_all (if ''bm25'' = ''tfidf'' then TFIDFRetrieval else BM25Retrieval 1.5 0.75)
            (built scenario_a) (tokenize ''cat'') [0 ..< length scenario_a] = Inr scores
      \<and> scores = positive_scores
            (if ''bm25'' = ''tfidf'' then TFIDFRetrieval else BM25Retrieval 1.5 0.75)
            (built scenario_a) (tokenize ''cat'') [0 ..< length scenario_a]
      \<and> res = map (\<lambda>x. (fst x, snd x, meta_of (scenario_a ! fst x)))
                 (slice_to (sort_desc scores) 10)
      \<and> search (indexed_system scenario_a (Some (\<lambda>q s t. None)) []) ''cat'' ''bm25'' 10 ''en''
        sample_clock = Inr (res, sys'')
      \<and> search_history sys' = [] @ [last (search_history sys')]
      \<and> rec_query (last (search_history sys')) = ''cat''
      \<and> translated_query (last (search_history sys')) = None
      \<and> query_language (last (search_history sys')) = ''bn''
      \<and> results (last (search_history sys')) =
          map (entry_of scenario_a) (slice_to (sort_desc scores) 10))"
proof -
  have h1: "''bn'' \<noteq> ''en''" by simp
  have h2: "(None :: translator option) = None
      \<or> (\<exists>f. (None :: translator option) = Some f \<and> f ''cat'' ''bn'' ''en'' = None)"
    by simp
  have h3: "Some (\<lambda>q s t. None) = (None :: translator option)
      \<or> (\<exists>f. Some (\<lambda>q s t. None) = Some f \<and> f ''cat'' ''bn'' ''en'' = None)"
    by simp
  show ?thesis
    by (intro conjI h1 translation_fallback [OF h1 h2] translation_fallback [OF h1 h3])
qed

section \<open>The tokenizer's policy\<close>

lemma spec_words_Nil: "spec_words [] = []"
  by (simp add: spec_words.simps)

lemma spec_words_space: "is_space c \<Longrightarrow> spec_words (c # s) = spec_words s"
  by (simp add: spec_words.simps [of "c # s"] spec_words.simps [of s])

lemma spec_words_token:
  assumes "cur \<noteq> []" "\<forall>x \<in> set cur. \<not> is_space x" "s = [] \<or> is_space (hd s)"
  shows "spec_words (cur @ s) = cur # spec_words s"
proof -
  obtain h t where cur: "cur = h # t" using assms(1) by (cases cur) auto
  have h: "\<not> is_space h" and t: "\<forall>x \<in> set t. \<not> is_space x"
    using assms(2) cur by simp_all
  have tw: "takeWhile (\<lambda>x. \<not> is_space x) (t @ s) = t"
    using t assms(3) by (cases s) (simp_all add: takeWhile_append2)
  have dw: "dropWhile (\<lambda>x. \<not> is_space x) (t @ s) = dropWhile (\<lambda>x. \<not> is_space x) s"
    using t by (simp add: dropWhile_append2)
  have ds: "spec_words (dropWhile (\<lambda>x. \<not> is_space x) s) = spec_words s"
    using assms(3) by (cases s) simp_all
  show ?thesis
    by (subst spec_words.simps) (simp add: cur h tw dw ds)
qed

lemma split_scan_spec_words:
  "\<forall>x \<in> set cur. \<not> is_space x \<Longrightarrow> split_scan cur s = spec_words (cur @ s)"
proof (induction s arbitrary: cur)
  case Nil
  show ?case
  proof (cases "cur = []")
    case True
    then show ?thesis by (simp add: spec_words_Nil)
  next
    case False
    from spec_words_token [OF False Nil.prems, of "[]"] False show ?thesis
      by (simp add: spec_words_Nil)
  qed
next
  case (Cons c s)
  show ?case
  proof (cases "is_space c")
    case True
    have rest: "split_scan [] s = spec_words s"
      using Cons.IH [of "[]"] by simp
    show ?thesis
    proof (cases "cur = []")
      case True
      with \<open>is_space c\<close> rest show ?thesis by (simp add: spec_words_space)
    next
      case False
      from spec_words_token [OF False Cons.prems, of "c # s"] \<open>is_space c\<close>
      have "spec_words (cur @ c # s) = cur # spec_words s"
        by (simp add: spec_words_space)
      with False \<open>is_space c\<close> rest show ?thesis by simp
    qed
  next
    case False
    have "split_scan (cur @ [c]) s = spec_words ((cur @ [c]) @ s)"
      by (rule Cons.IH) (simp add: Cons.prems False)
    with False show ?thesis by simp
  qed
qed

lemma split_ws_spec_words: "split_ws s = spec_words s"
  by (simp add: split_ws_def split_scan_spec_words)

lemma lower_char_underscore: "lower_char c = CHR ''_'' \<longleftrightarrow> c = CHR ''_''"
proof
  assume l: "lower_char c = CHR ''_''"
  show "c = CHR ''_''"
  proof (rule ccontr)
    assume ne: "c \<noteq> CHR ''_''"
    let ?n = "of_char c :: nat"
    from l ne have up: "(65 \<le> ?n \<and> ?n \<le> 90) \<or> (192 \<le> ?n \<and> ?n \<le> 222 \<and> ?n \<noteq> 215)"
      and eq: "char_of (?n + 32) = CHR ''_''"
      by (auto simp: lower_char_def Let_def split: if_splits)
    from eq have "(of_char (char_of (?n + 32)) :: nat) = of_char CHR ''_''"
      by simp
    then have "(?n + 32) mod 256 = 95" by simp
    with up show False by auto
  qed
next
  assume "c = CHR ''_''"
  then show "lower_char c = CHR ''_''"
    by (simp add: lower_char_def)
qed

lemma tokenize_policy_word:
  "tokenize text = tokenize_policy (\<lambda>c. is_alnum c \<or> c = CHR ''_'' \<or> is_space c) text"
proof -
  have "sub_nonword (lower text) =
      map (\<lambda>c. if is_alnum c \<or> c = CHR ''_'' \<or> is_space c then c else CHR '' '')
        (map lower_char text)"
    by (simp add: sub_nonword_def lower_def is_word_def)
  then show ?thesis
    by (simp add: tokenize_def tokenize_policy_def Let_def split_ws_spec_words not_le)
qed

lemma tokenize_no_underscore:
  assumes "CHR ''_'' \<notin> set text"
  shows "tokenize text = tokenize_spec text"
proof -
  have "map (\<lambda>c. if is_alnum c \<or> c = CHR ''_'' \<or> is_space c then c else CHR '' '')
          (map lower_char text)
      = map (\<lambda>c. if is_alnum c \<or> is_space c then c else CHR '' '') (map lower_char text)"
  proof (rule map_cong [OF refl])
    fix c assume "c \<in> set (map lower_char text)"
    then obtain c0 where "c0 \<in> set text" "c = lower_char c0" by auto
    with assms have "c \<noteq> CHR ''_''"
      by (auto simp: lower_char_underscore)
    then show "(if is_alnum c \<or> c = CHR ''_'' \<or> is_space c then c else CHR '' '') =
        (if is_alnum c \<or> is_space c then c else CHR '' '')"
      by simp
  qed
  then show ?thesis
    by (simp only: tokenize_policy_word tokenize_spec_def tokenize_policy_def)
qed

text \<open>
  The underscore is neither a letter, a digit nor whitespace, but it belongs to the
  class \<open>\w\<close>, so the substitution \<open>[^\w\s]\<close> keeps it: on \<open>abc_def\<close> the
  tokenizer returns one token where the specification's policy returns two.
\<close>

theorem tokenize_underscore_counterexample:
  "tokenize ''abc_def'' = [''abc_def'']
   \<and> tokenize_spec ''abc_def'' = [''abc'', ''def'']
   \<and> tokenize ''abc_def'' \<noteq> tokenize_spec ''abc_def''"
proof -
  have 1: "tokenize ''abc_def'' = [''abc_def'']" by code_simp
  have 2: "tokenize_spec ''abc_def'' = [''abc'', ''def'']" by code_simp
  from 1 2 show ?thesis by simp
qed

text \<open>
  C6 (amended). For every input string, \<open>tokenize\<close> lower-cases the text, replaces
  every character that is not a letter, a digit, an underscore or whitespace with a
  space, splits on whitespace and drops all tokens of length at most 2; the empty string
  yields the empty sequence; and on a text without underscores the result is that of
  the specification's policy.
\<close>

theorem tokenize_policy_amended:
  "tokenize text = tokenize_policy (\<lambda>c. is_alnum c \<or> c = CHR ''_'' \<or> is_space c) text
   \<and> tokenize [] = []
   \<and> (CHR ''_'' \<notin> set text \<longrightarrow> tokenize text = tokenize_spec text)"
proof (intro conjI impI)
  show "tokenize text = tokenize_policy (\<lambda>c. is_alnum c \<or> c = CHR ''_'' \<or> is_space c) text"
    by (rule tokenize_policy_word)
  show "tokenize [] = []"
    by (simp add: tokenize_def lower_def sub_nonword_def split_ws_def)
  show "tokenize text = tokenize_spec text" if "CHR ''_'' \<notin> set text"
    using that by (rule tokenize_no_underscore)
qed

theorem tokenize_policy_amended_witness:
  "CHR ''_'' \<notin> set ''Hello, World! It is''
   \<and> tokenize ''Hello, World! It is'' = tokenize_spec ''Hello, World! It is''
   \<and> tokenize ''Hello, World! It is'' = [''hello'', ''world'']"
proof -
  have h: "CHR ''_'' \<notin> set ''Hello, World! It is''" by simp
  have v: "tokenize ''Hello, World! It is'' = [''hello'', ''world'']" by code_simp
  show ?thesis
    using h v tokenize_policy_amended [of "''Hello, World! It is''"] by blast
qed

end
